theory Spec2Isabelle
  imports Complex_Main "HOL-Library.Word"
begin

section \<open>JavaScript numbers\<close>

text \<open>
  A JavaScript Number is an IEEE 754 binary64 value: a finite value, one of
  the two infinities, or NaN. A finite value is modelled by the real it
  denotes, and an arithmetic operation returns the exact result rounded to
  the nearest representable value, ties to the even significand, and an
  infinity beyond the largest finite value. The special values follow the
  ECMAScript rules (\<open>0/0\<close>, \<open>\<infinity> - \<infinity>\<close>, \<open>0 * \<infinity>\<close> give NaN; a comparison with NaN
  is false). The two zeros are one value here: they compare equal, and no
  operation below tells them apart.
\<close>

datatype jsnum = NaN | NInf | Fin real | PInf

text \<open>The relational operators \<open>a < b\<close> and \<open>a <= b\<close> on Numbers.\<close>

fun js_lt :: "jsnum \<Rightarrow> jsnum \<Rightarrow> bool" where
  "js_lt NaN b = False"
| "js_lt a NaN = False"
| "js_lt (Fin x) (Fin y) = (x < y)"
| "js_lt a NInf = False"
| "js_lt NInf b = True"
| "js_lt PInf b = False"
| "js_lt (Fin x) PInf = True"

definition js_le :: "jsnum \<Rightarrow> jsnum \<Rightarrow> bool" where
  "js_le a b = (a \<noteq> NaN \<and> b \<noteq> NaN \<and> \<not> js_lt b a)"

fun js_neg :: "jsnum \<Rightarrow> jsnum" where
  "js_neg NaN = NaN"
| "js_neg NInf = PInf"
| "js_neg (Fin x) = Fin (- x)"
| "js_neg PInf = NInf"

subsection \<open>Rounding to binary64\<close>

text \<open>
  The integer nearest to \<open>q\<close>, the even one of the two when \<open>q\<close> is half-way.
\<close>

definition round_half_even :: "real \<Rightarrow> int" where
  "round_half_even q =
     (let f = \<lfloor>q\<rfloor>; r = q - of_int f
      in if r < 1 / 2 then f else if 1 / 2 < r then f + 1 else if even f then f else f + 1)"

text \<open>
  The exponent of the unit in the last place of a non-negative real \<open>a\<close>: the
  least \<open>e\<close> from \<open>-1074\<close> (the subnormal spacing) with \<open>a < 2^(e + 53)\<close>, and
  \<open>971\<close> (the spacing below \<open>2^1024\<close>) at most.
\<close>

primrec find_exp :: "nat \<Rightarrow> int \<Rightarrow> real \<Rightarrow> int" where
  "find_exp 0 e a = e"
| "find_exp (Suc n) e a = (if a < 2 powi (e + 53) then e else find_exp n (e + 1) a)"

definition expo :: "real \<Rightarrow> int" where
  "expo a = find_exp 2045 (- 1074) a"

definition double_limit :: real where
  "double_limit = 2 powi 1024"

text \<open>
  Rounding of a non-negative real: to the nearest multiple of its unit in the
  last place, and to \<open>+\<infinity>\<close> when that reaches \<open>2^1024\<close>. Rounding is symmetric
  in the sign.
\<close>

definition nearest :: "real \<Rightarrow> real" where
  "nearest a = (let e = expo a in of_int (round_half_even (a / 2 powi e)) * 2 powi e)"

definition round_pos :: "real \<Rightarrow> jsnum" where
  "round_pos a = (if double_limit \<le> nearest a then PInf else Fin (nearest a))"

definition round64 :: "real \<Rightarrow> jsnum" where
  "round64 x = (if 0 \<le> x then round_pos x else js_neg (round_pos (- x)))"

text \<open>The reals that are binary64 values: those that rounding leaves as they are.\<close>

definition is_double :: "real \<Rightarrow> bool" where
  "is_double d = (round64 d = Fin d)"

subsection \<open>Arithmetic\<close>

text \<open>\<open>a - b\<close>\<close>

fun js_sub :: "jsnum \<Rightarrow> jsnum \<Rightarrow> jsnum" where
  "js_sub NaN b = NaN"
| "js_sub a NaN = NaN"
| "js_sub (Fin x) (Fin y) = round64 (x - y)"
| "js_sub PInf PInf = NaN"
| "js_sub NInf NInf = NaN"
| "js_sub PInf b = PInf"
| "js_sub NInf b = NInf"
| "js_sub (Fin x) PInf = NInf"
| "js_sub (Fin x) NInf = PInf"

text \<open>The sign of a non-NaN Number, as \<open>-1\<close>, \<open>0\<close> or \<open>1\<close>.\<close>

fun js_sign :: "jsnum \<Rightarrow> int" where
  "js_sign NaN = 0"
| "js_sign NInf = -1"
| "js_sign PInf = 1"
| "js_sign (Fin x) = (if x < 0 then -1 else if x = 0 then 0 else 1)"

definition signed_inf :: "int \<Rightarrow> jsnum" where
  "signed_inf s = (if s < 0 then NInf else PInf)"

text \<open>\<open>a * b\<close>\<close>

fun js_mul :: "jsnum \<Rightarrow> jsnum \<Rightarrow> jsnum" where
  "js_mul NaN b = NaN"
| "js_mul a NaN = NaN"
| "js_mul (Fin x) (Fin y) = round64 (x * y)"
| "js_mul a b =
     (if js_sign a = 0 \<or> js_sign b = 0 then NaN else signed_inf (js_sign a * js_sign b))"

text \<open>\<open>a / b\<close>; a zero divisor is taken as \<open>+0\<close>.\<close>

fun js_div :: "jsnum \<Rightarrow> jsnum \<Rightarrow> jsnum" where
  "js_div NaN b = NaN"
| "js_div a NaN = NaN"
| "js_div (Fin x) (Fin y) =
     (if y = 0 then (if x = 0 then NaN else signed_inf (js_sign (Fin x))) else round64 (x / y))"
| "js_div (Fin x) b = Fin 0"
| "js_div a (Fin y) = signed_inf (js_sign a * (if y < 0 then -1 else 1))"
| "js_div a b = NaN"

text \<open>
  \<open>Math.min(...args)\<close> and \<open>Math.max(...args)\<close>: the running extreme starts at
  \<open>+\<infinity>\<close> (\<open>-\<infinity>\<close>), and any NaN argument makes the result NaN.
\<close>

definition min2 :: "jsnum \<Rightarrow> jsnum \<Rightarrow> jsnum" where
  "min2 x lowest =
     (if x = NaN \<or> lowest = NaN then NaN else if js_lt x lowest then x else lowest)"

definition max2 :: "jsnum \<Rightarrow> jsnum \<Rightarrow> jsnum" where
  "max2 x highest =
     (if x = NaN \<or> highest = NaN then NaN else if js_lt highest x then x else highest)"

definition Math_min :: "jsnum list \<Rightarrow> jsnum" where
  "Math_min args = fold min2 args PInf"

definition Math_max :: "jsnum list \<Rightarrow> jsnum" where
  "Math_max args = fold max2 args NInf"

text \<open>
  \<open>Math.pow(base, exponent)\<close>, after Number::exponentiate. A negative base
  has a power only for an integral exponent. ECMAScript leaves the finite
  results to the implementation's approximation; they are taken here as the
  exact power rounded like every other operation, so that a small power
  underflows to \<open>0\<close> and a large one overflows to an infinity.
\<close>

definition is_integral :: "real \<Rightarrow> bool" where
  "is_integral y = (y = of_int \<lfloor>y\<rfloor>)"

definition odd_integral :: "real \<Rightarrow> bool" where
  "odd_integral y = (is_integral y \<and> odd \<lfloor>y\<rfloor>)"

fun Math_pow :: "jsnum \<Rightarrow> jsnum \<Rightarrow> jsnum" where
  "Math_pow b NaN = NaN"
| "Math_pow b (Fin y) =
     (if y = 0 then Fin 1
      else case b of
        NaN \<Rightarrow> NaN
      | PInf \<Rightarrow> (if 0 < y then PInf else Fin 0)
      | NInf \<Rightarrow> (if 0 < y then (if odd_integral y then NInf else PInf) else Fin 0)
      | Fin x \<Rightarrow>
          (if x = 0 then (if 0 < y then Fin 0 else PInf)
           else if 0 < x then round64 (x powr y)
           else if is_integral y
             then round64 ((if odd_integral y then -1 else 1) * ((- x) powr y))
           else NaN))"
| "Math_pow b PInf =
     (case b of
        NaN \<Rightarrow> NaN
      | Fin x \<Rightarrow> (if 1 < \<bar>x\<bar> then PInf else if \<bar>x\<bar> = 1 then NaN else Fin 0)
      | _ \<Rightarrow> PInf)"
| "Math_pow b NInf =
     (case b of
        NaN \<Rightarrow> NaN
      | Fin x \<Rightarrow> (if 1 < \<bar>x\<bar> then Fin 0 else if \<bar>x\<bar> = 1 then NaN else PInf)
      | _ \<Rightarrow> Fin 0)"

section \<open>The association scaler\<close>

text \<open>
  The data-handling script is present in three revisions, each with its own
  \<open>scaleAssociations\<close> (at lines 101, 205 and 291 of the script file). An
  array argument is a list; a parameter with a default value is an option,
  \<open>None\<close> being the omitted argument.
\<close>

text \<open>First revision: min-max normalisation, then the cube.\<close>

definition scaleAssociations_v1 :: "jsnum list \<Rightarrow> jsnum list" where
  "scaleAssociations_v1 docAssoc =
     (let mn = Math_min docAssoc;
          mx = Math_max docAssoc;
          docAssoc = map (\<lambda>v. js_div (js_sub v mn) (js_sub mx mn)) docAssoc;
          docAssoc = map (\<lambda>v. Math_pow v (Fin 3)) docAssoc
      in docAssoc)"

text \<open>Second revision: the exponent is a parameter, \<open>exp = 3\<close> by default.\<close>

definition scaleAssociations_v2 :: "jsnum list \<Rightarrow> jsnum option \<Rightarrow> jsnum list" where
  "scaleAssociations_v2 docAssoc expArg =
     (let exp = (case expArg of None \<Rightarrow> Fin 3 | Some e \<Rightarrow> e);
          mn = Math_min docAssoc;
          mx = Math_max docAssoc;
          scaledDA = map (\<lambda>v. js_div (js_sub v mn) (js_sub mx mn)) docAssoc;
          scaledDA = map (\<lambda>v. Math_pow v exp) scaledDA
      in scaledDA)"

text \<open>
  Third revision: the normalised value is multiplied by \<open>scaleBy\<close> (\<open>2\<close> by
  default) and clamped into \<open>[0, 1]\<close>.
\<close>

definition scaleAssociations_v3 :: "jsnum list \<Rightarrow> jsnum option \<Rightarrow> jsnum list" where
  "scaleAssociations_v3 docAssoc scaleByArg =
     (let scaleBy = (case scaleByArg of None \<Rightarrow> Fin 2 | Some s \<Rightarrow> s);
          mn = Math_min docAssoc;
          mx = Math_max docAssoc;
          range = js_sub mx mn;
          scaledDA = map (\<lambda>v. let scaled = js_mul (js_sub v mn) scaleBy
                                in js_div scaled range) docAssoc;
          scaledDA = map (\<lambda>v. Math_min [Fin 1, Math_max [Fin 0, v]]) scaledDA
      in scaledDA)"

section \<open>The scaler on the heap\<close>

text \<open>
  Arrays are objects: a variable holds a reference, and whether a call changes
  its argument is a question about the store. The store is the list of all
  arrays allocated so far, a reference is an index into it, and
  \<open>Array.prototype.map\<close> allocates its result at the end.
\<close>

type_synonym addr = nat
type_synonym heap = "jsnum list list"

definition array_map :: "(jsnum \<Rightarrow> jsnum) \<Rightarrow> heap \<Rightarrow> addr \<Rightarrow> heap \<times> addr" where
  "array_map f h a = (h @ [map f (h ! a)], length h)"

definition scaleAssociations_v1_h :: "heap \<Rightarrow> addr \<Rightarrow> heap \<times> addr" where
  "scaleAssociations_v1_h h docAssoc =
     (let mn = Math_min (h ! docAssoc);
          mx = Math_max (h ! docAssoc);
          (h, docAssoc) = array_map (\<lambda>v. js_div (js_sub v mn) (js_sub mx mn)) h docAssoc;
          (h, docAssoc) = array_map (\<lambda>v. Math_pow v (Fin 3)) h docAssoc
      in (h, docAssoc))"

definition scaleAssociations_v2_h :: "heap \<Rightarrow> addr \<Rightarrow> jsnum option \<Rightarrow> heap \<times> addr" where
  "scaleAssociations_v2_h h docAssoc expArg =
     (let exp = (case expArg of None \<Rightarrow> Fin 3 | Some e \<Rightarrow> e);
          mn = Math_min (h ! docAssoc);
          mx = Math_max (h ! docAssoc);
          (h, scaledDA) = array_map (\<lambda>v. js_div (js_sub v mn) (js_sub mx mn)) h docAssoc;
          (h, scaledDA) = array_map (\<lambda>v. Math_pow v exp) h scaledDA
      in (h, scaledDA))"

definition scaleAssociations_v3_h :: "heap \<Rightarrow> addr \<Rightarrow> jsnum option \<Rightarrow> heap \<times> addr" where
  "scaleAssociations_v3_h h docAssoc scaleByArg =
     (let scaleBy = (case scaleByArg of None \<Rightarrow> Fin 2 | Some s \<Rightarrow> s);
          mn = Math_min (h ! docAssoc);
          mx = Math_max (h ! docAssoc);
          range = js_sub mx mn;
          (h, scaledDA) = array_map (\<lambda>v. let scaled = js_mul (js_sub v mn) scaleBy
                                           in js_div scaled range) h docAssoc;
          (h, scaledDA) = array_map (\<lambda>v. Math_min [Fin 1, Math_max [Fin 0, v]]) h scaledDA
      in (h, scaledDA))"

text \<open>
  What a call leaves of the store: the argument \<open>a\<close> and every array that
  existed before are as they were, and the result \<open>r\<close> is a new array with the
  expected elements.
\<close>

definition unchanged_by :: "heap \<Rightarrow> addr \<Rightarrow> heap \<times> addr \<Rightarrow> jsnum list \<Rightarrow> bool" where
  "unchanged_by h a res expected =
     (case res of (h', r) \<Rightarrow>
        h' ! a = h ! a \<and> take (length h) h' = h \<and> length h \<le> r \<and> r < length h'
        \<and> h' ! r = expected)"

section \<open>What the specification says of the scaler\<close>

text \<open>
  The specification's procedure, in its own words: linear min-max
  normalisation, then a power with the configured exponent.
\<close>

definition spec_scale :: "jsnum list \<Rightarrow> jsnum \<Rightarrow> jsnum list" where
  "spec_scale v e =
     map (\<lambda>x. Math_pow (js_div (js_sub x (Math_min v)) (js_sub (Math_max v) (Math_min v))) e) v"

text \<open>
  The inputs the scaler is specified for: a vector of finite non-negative
  Numbers with at least two distinct values, given by the reals they denote.
\<close>

definition association_vector :: "real list \<Rightarrow> bool" where
  "association_vector v =
     (v \<noteq> [] \<and> list_all is_double v \<and> list_all (\<lambda>x. 0 \<le> x) v \<and> Min (set v) < Max (set v))"

text \<open>A scaled entry is usable as an intensity when it is a finite number of \<open>[0, 1]\<close>.\<close>

fun in_unit :: "jsnum \<Rightarrow> bool" where
  "in_unit (Fin r) = (0 \<le> r \<and> r \<le> 1)"
| "in_unit _ = False"

text \<open>
  Rank order is preserved when the outputs compare exactly as the inputs do,
  position by position; it is weakly preserved when the output of a smaller
  input is less than or equal to the output of a greater one (which NaN never
  is).
\<close>

definition rank_preserving :: "jsnum list \<Rightarrow> jsnum list \<Rightarrow> bool" where
  "rank_preserving xs ys =
     (length ys = length xs \<and>
      (\<forall>i < length xs. \<forall>j < length xs. js_lt (ys ! i) (ys ! j) = js_lt (xs ! i) (xs ! j)))"

definition rank_monotone :: "jsnum list \<Rightarrow> jsnum list \<Rightarrow> bool" where
  "rank_monotone xs ys =
     (length ys = length xs \<and>
      (\<forall>i < length xs. \<forall>j < length xs. js_lt (xs ! i) (xs ! j) \<longrightarrow> js_le (ys ! i) (ys ! j)))"

text \<open>
  The extremes are kept apart when every occurrence of the least input is
  scaled to \<open>0\<close> and every occurrence of the greatest to \<open>1\<close>.
\<close>

definition extremes_kept :: "jsnum list \<Rightarrow> jsnum list \<Rightarrow> bool" where
  "extremes_kept xs ys =
     (length ys = length xs \<and>
      (\<forall>i < length xs. (xs ! i = Math_min xs \<longrightarrow> ys ! i = Fin 0)
                        \<and> (xs ! i = Math_max xs \<longrightarrow> ys ! i = Fin 1)))"

text \<open>
  The upper half is saturated when every input whose doubled distance from
  the least input, as the script computes it, reaches the computed range is
  scaled to \<open>1\<close>.
\<close>

definition upper_half_saturated :: "jsnum list \<Rightarrow> jsnum list \<Rightarrow> bool" where
  "upper_half_saturated xs ys =
     (length ys = length xs \<and>
      (\<forall>i < length xs.
         js_le (js_sub (Math_max xs) (Math_min xs)) (js_mul (js_sub (xs ! i) (Math_min xs)) (Fin 2))
         \<longrightarrow> ys ! i = Fin 1))"

section \<open>Strings and plain objects\<close>

text \<open>A string is its sequence of UTF-16 code units.\<close>

type_synonym jsstring = "16 word list"

definition js :: "string \<Rightarrow> jsstring" where
  "js s = map (\<lambda>c. word_of_nat (of_char c)) s"

text \<open>White space and line terminators, the code units \<open>String.prototype.trim\<close> strips.\<close>

definition is_white_space :: "16 word \<Rightarrow> bool" where
  "is_white_space c =
     (c \<in> set [0x9, 0xA, 0xB, 0xC, 0xD, 0x20, 0xA0, 0x1680, 0x2028, 0x2029, 0x202F,
                0x205F, 0x3000, 0xFEFF]
      \<or> (0x2000 \<le> c \<and> c \<le> 0x200A))"

definition trim :: "jsstring \<Rightarrow> jsstring" where
  "trim s = rev (dropWhile is_white_space (rev (dropWhile is_white_space s)))"

text \<open>
  A plain object created by \<open>{}\<close> with boolean values: its own properties in
  creation order. It inherits from \<open>Object.prototype\<close>, whose \<open>__proto__\<close>
  is an accessor: assigning a boolean to that key calls the setter, which
  ignores a value that is neither an object nor null, and no own property is
  created. Any other key is created or overwritten.
\<close>

type_synonym jsobject = "(jsstring \<times> bool) list"

definition obj_set :: "jsobject \<Rightarrow> jsstring \<Rightarrow> bool \<Rightarrow> jsobject" where
  "obj_set obj key v =
     (if key = js ''__proto__'' then obj
      else if key \<in> set (map fst obj)
        then map (\<lambda>(k, w). if k = key then (k, v) else (k, w)) obj
      else obj @ [(key, v)])"

definition Object_prototype_keys :: "jsstring list" where
  "Object_prototype_keys = map js
     [''constructor'', ''__defineGetter__'', ''__defineSetter__'', ''hasOwnProperty'',
      ''__lookupGetter__'', ''__lookupSetter__'', ''isPrototypeOf'',
      ''propertyIsEnumerable'', ''toString'', ''valueOf'', ''__proto__'',
      ''toLocaleString'']"

text \<open>
  The truth value of \<open>obj[key]\<close>: the own property if there is one, an
  inherited function or object (truthy) otherwise, else \<open>undefined\<close> (falsy).
\<close>

definition obj_truthy :: "jsobject \<Rightarrow> jsstring \<Rightarrow> bool" where
  "obj_truthy obj key =
     (case map_of obj key of Some b \<Rightarrow> b | None \<Rightarrow> key \<in> set Object_prototype_keys)"

text \<open>
  Property enumeration order: the keys that are array indices (canonical
  decimal numerals below \<open>2^32 - 1\<close>) in ascending numeric order, then the other
  keys in creation order.
\<close>

definition is_digit :: "16 word \<Rightarrow> bool" where
  "is_digit c = (0x30 \<le> c \<and> c \<le> 0x39)"

definition index_value :: "jsstring \<Rightarrow> nat" where
  "index_value s = foldl (\<lambda>n c. 10 * n + unat (c - 0x30)) 0 s"

definition is_array_index :: "jsstring \<Rightarrow> bool" where
  "is_array_index s =
     (s \<noteq> [] \<and> list_all is_digit s \<and> (length s = 1 \<or> hd s \<noteq> 0x30)
      \<and> index_value s < 2 ^ 32 - 1)"

definition own_properties :: "jsobject \<Rightarrow> (jsstring \<times> bool) list" where
  "own_properties obj =
     sort_key (\<lambda>p. index_value (fst p)) (filter (\<lambda>p. is_array_index (fst p)) obj)
     @ filter (\<lambda>p. \<not> is_array_index (fst p)) obj"

definition Object_values :: "jsobject \<Rightarrow> bool list" where
  "Object_values obj = map snd (own_properties obj)"

section \<open>The page\<close>

text \<open>The parsed CSV: the header names (\<open>meta.fields\<close>) and the data rows.\<close>

record csv =
  meta_fields :: "jsstring list"
  data :: "jsstring list list"

definition makeQueryMap :: "csv \<Rightarrow> jsobject" where
  "makeQueryMap csvData =
     (let queryMap = [];
          headers = meta_fields csvData
      in fold (\<lambda>header queryMap. obj_set queryMap (trim header) False) headers queryMap)"

text \<open>
  The knob is an \<open>input\<close> of type \<open>range\<close>. The markup gives its attributes;
  the value the element holds is the one the browser keeps after value
  sanitisation for the range state: a string that is no number becomes the
  default value, a number outside the range is moved to the nearer bound, and
  a number off the step grid (counted from \<open>min\<close>) is moved to the nearest grid
  point inside the range, the higher one on a tie.
\<close>

record range_input =
  attr_min :: real
  attr_max :: real
  attr_step :: real
  attr_value :: "real option"

definition normBy_input :: range_input where
  "normBy_input = \<lparr> attr_min = 0.0001, attr_max = 1, attr_step = 0.01, attr_value = Some 0.5 \<rparr>"

definition range_default :: "range_input \<Rightarrow> real" where
  "range_default inp =
     (if attr_max inp < attr_min inp then attr_min inp
      else attr_min inp + (attr_max inp - attr_min inp) / 2)"

definition range_sanitize :: "range_input \<Rightarrow> real option \<Rightarrow> real" where
  "range_sanitize inp raw =
     (let lo = attr_min inp;
          hi = attr_max inp;
          st = (if 0 < attr_step inp then attr_step inp else 1);
          v = (case raw of None \<Rightarrow> range_default inp | Some x \<Rightarrow> x);
          v = (if v < lo then lo else if lo \<le> hi \<and> hi < v then hi else v);
          k = \<lfloor>(v - lo) / st + 1 / 2\<rfloor>;
          k = (if lo \<le> hi \<and> hi < lo + of_int k * st then k - 1 else k)
      in lo + of_int k * st)"

text \<open>
  The globals of the page, with the value the knob element holds, and the
  request \<open>compileForm\<close> posts: the form's own field \<open>normBy\<close>, then the
  appended \<open>csvData\<close> and \<open>query\<close>.
\<close>

record page =
  csvData :: csv
  queryMap :: jsobject
  docAssoc :: "jsnum list"
  knob_value :: real

record request =
  normBy :: real
  req_csvData :: csv
  query :: "bool list"

definition compileForm :: "page \<Rightarrow> request" where
  "compileForm p =
     \<lparr> normBy = knob_value p, req_csvData = csvData p, query = Object_values (queryMap p) \<rparr>"

text \<open>
  \<open>displayCSV\<close> draws one header cell per field, highlighted when the entry of
  \<open>Object.values(queryMap)\<close> at the field's position is truthy, and gives every
  data cell of row \<open>i\<close> the opacity \<open>docAssoc[i]\<close> (\<open>undefined\<close> past the end).
\<close>

record grid =
  header_cells :: "(jsstring \<times> bool) list"
  data_cells :: "(jsstring \<times> jsnum option) list"

definition displayCSV :: "page \<Rightarrow> grid" where
  "displayCSV p =
     (let headers = meta_fields (csvData p);
          selected = Object_values (queryMap p)
      in \<lparr> header_cells =
             map (\<lambda>headerIndex. (trim (headers ! headerIndex),
                    headerIndex < length selected \<and> selected ! headerIndex))
               [0 ..< length headers],
           data_cells =
             concat (map (\<lambda>rowIndex.
                 map (\<lambda>value. (value,
                        if rowIndex < length (docAssoc p) then Some (docAssoc p ! rowIndex)
                        else None))
                   (data (csvData p) ! rowIndex))
               [0 ..< length (data (csvData p))]) \<rparr>)"

text \<open>
  The start of the page: the CSV is loaded, the query map built, and
  \<open>docAssoc\<close> filled with one \<open>0\<close> per data row.
\<close>

definition init :: "csv \<Rightarrow> page" where
  "init loaded =
     \<lparr> csvData = loaded,
       queryMap = makeQueryMap loaded,
       docAssoc = replicate (length (data loaded)) (Fin 0),
       knob_value = range_sanitize normBy_input (attr_value normBy_input) \<rparr>"

text \<open>
  What can happen afterwards: the knob is moved, the form is submitted, a
  header cell is clicked, or a posted request is answered, with the
  \<open>associations\<close> array or with a failure (the \<open>catch\<close> branch, which only logs).
\<close>

datatype event =
  KnobInput "real option"
| FormSubmit
| HeaderClick nat
| Response "jsnum list"
| ResponseError

text \<open>
  \<open>submitForm\<close>'s handler of a successful response, for the revision's scaler
  \<open>scale\<close>: \<open>docAssoc\<close> is reassigned, then the grid is drawn.
\<close>

definition on_response :: "(jsnum list \<Rightarrow> jsnum list) \<Rightarrow> page \<Rightarrow> jsnum list \<Rightarrow> page \<times> grid" where
  "on_response scale p associations =
     (let p = p\<lparr> docAssoc := scale associations \<rparr> in (p, displayCSV p))"

definition header_click :: "page \<Rightarrow> nat \<Rightarrow> page" where
  "header_click p headerIndex =
     (let cellText = trim (meta_fields (csvData p) ! headerIndex)
      in p\<lparr> queryMap := obj_set (queryMap p) cellText (\<not> obj_truthy (queryMap p) cellText) \<rparr>)"

text \<open>One event: the new page and the requests posted while handling it.\<close>

fun step :: "(jsnum list \<Rightarrow> jsnum list) \<Rightarrow> page \<Rightarrow> event \<Rightarrow> page \<times> request list" where
  "step scale p (KnobInput raw) =
     (let p = p\<lparr> knob_value := range_sanitize normBy_input raw \<rparr> in (p, [compileForm p]))"
| "step scale p FormSubmit = (p, [compileForm p])"
| "step scale p (HeaderClick i) =
     (if i < length (meta_fields (csvData p))
      then (let p = header_click p i in (p, [compileForm p]))
      else (p, []))"
| "step scale p (Response associations) = (fst (on_response scale p associations), [])"
| "step scale p ResponseError = (p, [])"

fun run :: "(jsnum list \<Rightarrow> jsnum list) \<Rightarrow> page \<Rightarrow> event list \<Rightarrow> page \<times> request list" where
  "run scale p [] = (p, [])"
| "run scale p (e # es) =
     (let (p1, rs1) = step scale p e;
          (p2, rs2) = run scale p1 es
      in (p2, rs1 @ rs2))"

text \<open>The events that change the query map: the clicks on a header cell.\<close>

fun is_click :: "event \<Rightarrow> bool" where
  "is_click (HeaderClick i) = True"
| "is_click e = False"

text \<open>The \<open>associations\<close> arrays of the successful responses among the events, in order.\<close>

fun responses :: "event list \<Rightarrow> jsnum list list" where
  "responses [] = []"
| "responses (Response a # es) = a # responses es"
| "responses (e # es) = responses es"

text \<open>The scaler as each revision's \<open>submitForm\<close> calls it, with one argument.\<close>

definition scale_v1 :: "jsnum list \<Rightarrow> jsnum list" where
  "scale_v1 a = scaleAssociations_v1 a"

definition scale_v2 :: "jsnum list \<Rightarrow> jsnum list" where
  "scale_v2 a = scaleAssociations_v2 a None"

definition scale_v3 :: "jsnum list \<Rightarrow> jsnum list" where
  "scale_v3 a = scaleAssociations_v3 a None"

section \<open>The retrieval engine\<close>

text \<open>
  The engine (corpus matrix builder, normalisation engine, connection block)
  is the Python package behind the page's API; the page only posts requests
  to it. Its definitions here follow the specification's sections 4.1 to 4.3.
\<close>

datatype engine_error = InvalidCorpus | DimensionError | InvalidParameter | UninitializedBlockError

type_synonym matrix = "real list list"




text \<open>
  Modelled from the spec: the Normalization Engine, which is not among the
  sources. The degree of a node is its row sum; its rescaling factor is the
  degree to the power \<open>- s\<close>, and \<open>0\<close> for a node of degree \<open>0\<close>; the
  normalised matrix is the rescaling matrix times \<open>A\<close> times the rescaling
  matrix.
\<close>

definition rescale_factor :: "matrix \<Rightarrow> real \<Rightarrow> nat \<Rightarrow> real" where
  "rescale_factor A s i =
     (let degree = sum_list (A ! i) in if degree = 0 then 0 else degree powr (- s))"








section \<open>Properties of rounding\<close>

text \<open>
  Rounding is monotone, leaves binary64 values as they are, returns binary64
  values only, and never rounds the difference of two distinct binary64
  values to zero.
\<close>

lemma rhe_mono: "q1 \<le> q2 \<Longrightarrow> round_half_even q1 \<le> round_half_even q2"
proof -
  assume le: "q1 \<le> q2"
  have fl: "\<lfloor>q1\<rfloor> \<le> \<lfloor>q2\<rfloor>" using le by (rule floor_mono)
  have b1: "round_half_even q1 \<le> \<lfloor>q1\<rfloor> + 1" by (simp add: round_half_even_def Let_def)
  have b2: "\<lfloor>q2\<rfloor> \<le> round_half_even q2" by (simp add: round_half_even_def Let_def)
  show ?thesis
  proof (cases "\<lfloor>q1\<rfloor> = \<lfloor>q2\<rfloor>")
    case True
    then show ?thesis using le by (auto simp: round_half_even_def Let_def)
  next
    case False
    then have "\<lfloor>q1\<rfloor> + 1 \<le> \<lfloor>q2\<rfloor>" using fl by simp
    then show ?thesis using b1 b2 by linarith
  qed
qed

lemma rhe_of_int [simp]: "round_half_even (of_int k) = k"
  by (simp add: round_half_even_def)

lemma rhe_ge: "of_int k \<le> q \<Longrightarrow> k \<le> round_half_even q"
  using rhe_mono[of "of_int k" q] by simp

lemma rhe_le: "q \<le> of_int k \<Longrightarrow> round_half_even q \<le> k"
  using rhe_mono[of q "of_int k"] by simp

lemma find_exp_bounds: "e \<le> find_exp n e a \<and> find_exp n e a \<le> e + int n"
proof (induction n arbitrary: e)
  case 0
  show ?case by simp
next
  case (Suc n)
  show ?case using Suc[of "e + 1"] by auto
qed

lemma find_exp_upper:
  "find_exp n e a < e + int n \<Longrightarrow> a < 2 powi (find_exp n e a + 53)"
proof (induction n arbitrary: e)
  case 0
  then show ?case by simp
next
  case (Suc n)
  show ?case
  proof (cases "a < 2 powi (e + 53)")
    case True
    then show ?thesis by simp
  next
    case False
    then show ?thesis using Suc.IH[of "e + 1"] Suc.prems by simp
  qed
qed

lemma find_exp_lower:
  "e < find_exp n e a \<Longrightarrow> 2 powi (find_exp n e a + 52) \<le> a"
proof (induction n arbitrary: e)
  case 0
  then show ?case by simp
next
  case (Suc n)
  show ?case
  proof (cases "a < 2 powi (e + 53)")
    case True
    then show ?thesis using Suc.prems by simp
  next
    case False
    show ?thesis
    proof (cases "e + 1 < find_exp n (e + 1) a")
      case True
      then show ?thesis using Suc.IH[of "e + 1"] False by simp
    next
      case F2: False
      then have "find_exp n (e + 1) a = e + 1" using find_exp_bounds[of "e + 1" n a] by simp
      then show ?thesis using False by (simp add: add.commute add.left_commute)
    qed
  qed
qed

lemma expo_bounds: "- 1074 \<le> expo a" "expo a \<le> 971"
  using find_exp_bounds[of "- 1074" 2045 a] by (simp_all add: expo_def)

lemma expo_upper: "expo a < 971 \<Longrightarrow> a < 2 powi (expo a + 53)"
  using find_exp_upper[of 2045 "- 1074" a] by (simp add: expo_def)

lemma expo_lower: "- 1074 < expo a \<Longrightarrow> 2 powi (expo a + 52) \<le> a"
  using find_exp_lower[of "- 1074" 2045 a] by (simp add: expo_def)

lemma powi2_mono: "(m::int) \<le> n \<Longrightarrow> (2::real) powi m \<le> 2 powi n"
  by (rule power_int_increasing) simp_all

lemma expo_mono:
  assumes "a \<le> b"
  shows "expo a \<le> expo b"
proof (rule ccontr)
  assume "\<not> expo a \<le> expo b"
  then have lt: "expo b < expo a" by simp
  then have "- 1074 < expo a" using expo_bounds(1)[of b] by linarith
  then have 1: "2 powi (expo a + 52) \<le> a" by (rule expo_lower)
  have "expo b < 971" using lt expo_bounds(2)[of a] by linarith
  then have 2: "b < 2 powi (expo b + 53)" by (rule expo_upper)
  have "(2::real) powi (expo b + 53) \<le> 2 powi (expo a + 52)" using lt by (intro powi2_mono) simp
  then show False using 1 2 assms by linarith
qed

lemma expo_unique:
  assumes "- 1074 \<le> e" "e \<le> 971" "e = - 1074 \<or> 2 powi (e + 52) \<le> a" "e = 971 \<or> a < 2 powi (e + 53)"
  shows "expo a = e"
proof (rule antisym)
  show "expo a \<le> e"
  proof (rule ccontr)
    assume "\<not> expo a \<le> e"
    then have lt: "e < expo a" by simp
    then have "- 1074 < expo a" using assms(1) by linarith
    then have 1: "2 powi (expo a + 52) \<le> a" by (rule expo_lower)
    have "e \<noteq> 971" using lt expo_bounds(2)[of a] by linarith
    then have 2: "a < 2 powi (e + 53)" using assms(4) by simp
    have "(2::real) powi (e + 53) \<le> 2 powi (expo a + 52)" using lt by (intro powi2_mono) simp
    then show False using 1 2 by linarith
  qed
next
  show "e \<le> expo a"
  proof (rule ccontr)
    assume "\<not> e \<le> expo a"
    then have lt: "expo a < e" by simp
    then have "e \<noteq> - 1074" using expo_bounds(1)[of a] by linarith
    then have 1: "2 powi (e + 52) \<le> a" using assms(3) by simp
    have "expo a < 971" using lt assms(2) by linarith
    then have 2: "a < 2 powi (expo a + 53)" by (rule expo_upper)
    have "(2::real) powi (expo a + 53) \<le> 2 powi (e + 52)" using lt by (intro powi2_mono) simp
    then show False using 1 2 by linarith
  qed
qed

lemma nearest_eq: "nearest a = of_int (round_half_even (a / 2 powi expo a)) * 2 powi expo a"
  by (simp add: nearest_def Let_def)

lemma powi2_pos [simp]: "0 < (2::real) powi e"
  by simp

lemma powi2_split: "(2::real) powi (e + k) = 2 powi e * 2 powi k"
  by (simp add: power_int_add)

lemma nearest_mono:
  assumes "a \<le> b"
  shows "nearest a \<le> nearest b"
proof (cases "expo a = expo b")
  case True
  have "a / 2 powi expo b \<le> b / 2 powi expo b"
    using assms by (simp add: divide_right_mono)
  then have "round_half_even (a / 2 powi expo b) \<le> round_half_even (b / 2 powi expo b)"
    by (rule rhe_mono)
  then have "(of_int (round_half_even (a / 2 powi expo b)) :: real)
             \<le> of_int (round_half_even (b / 2 powi expo b))" by simp
  then show ?thesis
    by (simp add: nearest_eq True mult_right_mono)
next
  case False
  then have lt: "expo a < expo b" using expo_mono[OF assms] by simp
  have "expo a < 971" using lt expo_bounds(2)[of b] by linarith
  then have "a < 2 powi (expo a + 53)" by (rule expo_upper)
  then have "a / 2 powi expo a \<le> 2 powi 53"
    by (simp add: powi2_split pos_divide_le_eq mult.commute)
  then have "a / 2 powi expo a \<le> of_int (2 ^ 53)" by simp
  then have "round_half_even (a / 2 powi expo a) \<le> 2 ^ 53" by (rule rhe_le)
  then have "(of_int (round_half_even (a / 2 powi expo a)) :: real) \<le> of_int (2 ^ 53)"
    by (simp only: of_int_le_iff)
  then have "nearest a \<le> 2 powi 53 * 2 powi expo a"
    by (simp add: nearest_eq mult_right_mono)
  then have 1: "nearest a \<le> 2 powi (expo a + 53)"
    by (simp add: powi2_split mult.commute)
  have "- 1074 < expo b" using lt expo_bounds(1)[of a] by linarith
  then have "2 powi (expo b + 52) \<le> b" by (rule expo_lower)
  then have "2 powi 52 \<le> b / 2 powi expo b"
    by (simp add: powi2_split pos_le_divide_eq mult.commute)
  then have "of_int (2 ^ 52) \<le> b / 2 powi expo b" by simp
  then have "2 ^ 52 \<le> round_half_even (b / 2 powi expo b)" by (rule rhe_ge)
  then have "(of_int (2 ^ 52) :: real) \<le> of_int (round_half_even (b / 2 powi expo b))"
    by (simp only: of_int_le_iff)
  then have "2 powi 52 * 2 powi expo b \<le> nearest b"
    by (simp add: nearest_eq mult_right_mono)
  then have 2: "2 powi (expo b + 52) \<le> nearest b"
    by (simp add: powi2_split mult.commute)
  have "(2::real) powi (expo a + 53) \<le> 2 powi (expo b + 52)"
    using lt by (intro powi2_mono) simp
  then show ?thesis using 1 2 by linarith
qed

lemma nearest_nonneg: "0 \<le> a \<Longrightarrow> 0 \<le> nearest a"
proof -
  assume "0 \<le> a"
  then have "of_int 0 \<le> a / 2 powi expo a" by simp
  then have "0 \<le> round_half_even (a / 2 powi expo a)" by (rule rhe_ge)
  then show ?thesis by (simp add: nearest_eq)
qed

lemma js_le_Fin [simp]: "js_le (Fin x) (Fin y) = (x \<le> y)"
  by (auto simp: js_le_def)

lemma js_le_PInf [simp]: "js_le a PInf = (a \<noteq> NaN)"
  by (cases a) (simp_all add: js_le_def)

lemma js_le_NInf [simp]: "js_le NInf a = (a \<noteq> NaN)"
  by (cases a) (simp_all add: js_le_def)

lemma js_le_False [simp]:
  "js_le NaN b = False" "js_le a NaN = False" "js_le PInf (Fin y) = False"
  "js_le (Fin x) NInf = False" "js_le PInf NInf = False"
  by (simp_all add: js_le_def)

lemma js_le_refl: "a \<noteq> NaN \<Longrightarrow> js_le a a"
  by (cases a) (simp_all add: js_le_def)

lemma js_le_trans: "js_le a b \<Longrightarrow> js_le b c \<Longrightarrow> js_le a c"
  by (cases a; cases b; cases c) (simp_all add: js_le_def)

lemma round_pos_mono: "a \<le> b \<Longrightarrow> js_le (round_pos a) (round_pos b)"
  using nearest_mono[of a b] by (auto simp: round_pos_def)

lemma round_pos_cases:
  assumes "0 \<le> a"
  obtains v where "round_pos a = Fin v" "0 \<le> v" | "round_pos a = PInf"
  using nearest_nonneg[OF assms] by (cases "double_limit \<le> nearest a") (auto simp: round_pos_def)

lemma round64_not_NaN [simp]: "round64 x \<noteq> NaN"
  by (auto simp: round64_def round_pos_def)

lemma js_le_neg: "js_le a b \<Longrightarrow> js_le (js_neg b) (js_neg a)"
  by (cases a; cases b) (simp_all add: js_le_def)

lemma round64_mono:
  assumes "x \<le> y"
  shows "js_le (round64 x) (round64 y)"
proof -
  consider "0 \<le> x" | "x < 0" "0 \<le> y" | "y < 0" by linarith
  then show ?thesis
  proof cases
    case 1
    then show ?thesis using assms round_pos_mono[OF assms] by (simp add: round64_def)
  next
    case 2
    have a: "0 \<le> - x" using 2 by simp
    show ?thesis
      by (rule round_pos_cases[OF a]; rule round_pos_cases[OF 2(2)])
        (use 2 in \<open>simp_all add: round64_def\<close>)
  next
    case 3
    have "js_le (round_pos (- y)) (round_pos (- x))"
      using assms by (intro round_pos_mono) simp
    then show ?thesis using 3 assms by (simp add: round64_def js_le_neg)
  qed
qed

lemma round_pos_eval:
  assumes "- 1074 \<le> e" "e \<le> 971" "e = - 1074 \<or> 2 powi (e + 52) \<le> a" "e = 971 \<or> a < 2 powi (e + 53)"
  shows "round_pos a =
     (if double_limit \<le> of_int (round_half_even (a / 2 powi e)) * 2 powi e then PInf
      else Fin (of_int (round_half_even (a / 2 powi e)) * 2 powi e))"
  using expo_unique[OF assms] by (simp add: round_pos_def nearest_eq)

lemma rhe_0 [simp]: "round_half_even 0 = 0"
  by (simp add: round_half_even_def)

lemma double_limit_pos: "0 < double_limit"
  by (simp add: double_limit_def)

lemma round64_0 [simp]: "round64 0 = Fin 0"
  using round_pos_eval[of "- 1074" 0] double_limit_pos by (simp add: round64_def)

lemma round64_eval:
  assumes "0 \<le> a" "- 1074 \<le> e" "e \<le> 971" "e = - 1074 \<or> 2 powi (e + 52) \<le> a"
    "e = 971 \<or> a < 2 powi (e + 53)"
  shows "round64 a =
     (if double_limit \<le> of_int (round_half_even (a / 2 powi e)) * 2 powi e then PInf
      else Fin (of_int (round_half_even (a / 2 powi e)) * 2 powi e))"
  using round_pos_eval[OF assms(2-5)] assms(1) by (simp add: round64_def)

lemma nearest_mantissa:
  "nearest a = of_int (round_half_even (a / 2 powi expo a)) * 2 powi expo a"
  by (simp add: nearest_eq)

lemma mantissa_upper:
  assumes "expo a < 971"
  shows "round_half_even (a / 2 powi expo a) \<le> 2 ^ 53"
proof -
  have "a < 2 powi (expo a + 53)" using assms by (rule expo_upper)
  then have "a / 2 powi expo a \<le> 2 powi 53"
    by (simp add: powi2_split pos_divide_le_eq mult.commute)
  then have "a / 2 powi expo a \<le> of_int (2 ^ 53)" by simp
  then show ?thesis by (rule rhe_le)
qed

lemma mantissa_lower:
  assumes "- 1074 < expo a"
  shows "2 ^ 52 \<le> round_half_even (a / 2 powi expo a)"
proof -
  have "2 powi (expo a + 52) \<le> a" using assms by (rule expo_lower)
  then have "2 powi 52 \<le> a / 2 powi expo a"
    by (simp add: powi2_split pos_le_divide_eq mult.commute)
  then have "of_int (2 ^ 52) \<le> a / 2 powi expo a" by simp
  then show ?thesis by (rule rhe_ge)
qed

lemma nearest_int_eval:
  assumes "- 1074 \<le> e" "e \<le> 971" "e = - 1074 \<or> 2 ^ 52 \<le> m" "m < 2 ^ 53" "0 \<le> m"
  shows "nearest (of_int m * 2 powi e) = of_int m * 2 powi e"
proof -
  have lo: "e = - 1074 \<or> (2::real) powi (e + 52) \<le> of_int m * 2 powi e"
  proof (cases "e = - 1074")
    case False
    then have "2 ^ 52 \<le> m" using assms(3) by simp
    then have "(of_int (2 ^ 52) :: real) \<le> of_int m" by (simp only: of_int_le_iff)
    then have "(2::real) powi 52 * 2 powi e \<le> of_int m * 2 powi e"
      by (intro mult_right_mono) simp_all
    then show ?thesis by (simp add: powi2_split mult.commute)
  qed simp
  have "(of_int m :: real) < of_int (2 ^ 53)" using assms(4) by (simp only: of_int_less_iff)
  then have "of_int m * 2 powi e < (2::real) powi 53 * 2 powi e"
    by (intro mult_strict_right_mono) simp_all
  then have hi: "e = 971 \<or> of_int m * 2 powi e < (2::real) powi (e + 53)"
    by (simp add: powi2_split mult.commute)
  have "expo (of_int m * 2 powi e) = e"
    by (rule expo_unique[OF assms(1,2) lo hi])
  then show ?thesis by (simp add: nearest_eq)
qed

lemma nearest_idem:
  assumes "0 \<le> a" "nearest a < double_limit"
  shows "nearest (nearest a) = nearest a"
proof -
  define e where "e = expo a"
  define m where "m = round_half_even (a / 2 powi e)"
  have V: "nearest a = of_int m * 2 powi e" by (simp add: nearest_eq e_def m_def)
  have e: "- 1074 \<le> e" "e \<le> 971" using expo_bounds[of a] by (simp_all add: e_def)
  have m0: "0 \<le> m"
  proof -
    have "of_int 0 \<le> a / 2 powi e" using assms(1) by simp
    then show ?thesis unfolding m_def by (rule rhe_ge)
  qed
  have mlo: "e = - 1074 \<or> 2 ^ 52 \<le> m"
  proof (cases "- 1074 < e")
    case True
    then show ?thesis using mantissa_lower[of a] by (simp add: e_def m_def)
  next
    case False
    then show ?thesis using e(1) by simp
  qed
  have mhi: "m \<le> 2 ^ 53"
  proof (cases "e < 971")
    case True
    then show ?thesis using mantissa_upper[of a] by (simp add: e_def m_def)
  next
    case False
    then have e971: "e = 971" using e(2) by simp
    show ?thesis
    proof (rule ccontr)
      assume "\<not> m \<le> 2 ^ 53"
      then have "2 ^ 53 \<le> m" by simp
      then have "(of_int (2 ^ 53) :: real) \<le> of_int m" by (simp only: of_int_le_iff)
      then have "(2::real) powi 53 * 2 powi 971 \<le> of_int m * 2 powi 971"
        by (intro mult_right_mono) simp_all
      moreover have "(2::real) powi 53 * 2 powi 971 = 2 powi 1024"
        by (simp add: power_int_add[symmetric])
      ultimately show False using assms(2) by (simp add: V e971 double_limit_def)
    qed
  qed
  show ?thesis
  proof (cases "m < 2 ^ 53")
    case True
    show ?thesis unfolding V by (rule nearest_int_eval[OF e mlo True m0])
  next
    case False
    then have m: "m = 2 ^ 53" using mhi by simp
    have "e \<noteq> 971"
    proof
      assume "e = 971"
      then have "nearest a = 2 powi 1024"
        by (simp add: V m power_int_add[symmetric])
      then show False using assms(2) by (simp add: double_limit_def)
    qed
    then have e1: "- 1074 \<le> e + 1" "e + 1 \<le> 971" using e by simp_all
    have eq: "of_int m * 2 powi e = of_int (2 ^ 52) * (2::real) powi (e + 1)"
      by (simp add: m powi2_split)
    show ?thesis unfolding V eq
      by (rule nearest_int_eval[OF e1]) simp_all
  qed
qed

lemma round64_idem:
  assumes "round64 x = Fin r"
  shows "is_double r"
proof (cases "0 \<le> x")
  case True
  have r: "r = nearest x" and lim: "nearest x < double_limit"
    using assms True by (auto simp: round64_def round_pos_def split: if_splits)
  have "0 \<le> nearest x" using True by (rule nearest_nonneg)
  then show ?thesis
    using nearest_idem[OF True lim] lim by (simp add: is_double_def round64_def round_pos_def r)
next
  case False
  then have nx: "0 \<le> - x" by simp
  have r: "r = - nearest (- x)" and lim: "nearest (- x) < double_limit"
    using assms False by (auto simp: round64_def round_pos_def split: if_splits)
  have nn: "0 \<le> nearest (- x)" using nx by (rule nearest_nonneg)
  show ?thesis
  proof (cases "nearest (- x) = 0")
    case True
    then show ?thesis by (simp add: is_double_def r)
  next
    case F: False
    then have "\<not> 0 \<le> - nearest (- x)" using nn by simp
    then show ?thesis
      using nearest_idem[OF nx lim] lim by (simp add: is_double_def round64_def round_pos_def r)
  qed
qed

lemma is_double_multiple:
  assumes "is_double d"
  shows "\<exists>k::int. d = of_int k * 2 powi (- 1074)"
proof -
  have key: "\<exists>k::int. nearest a = of_int k * 2 powi (- 1074)" for a
  proof -
    have "- 1074 \<le> expo a" by (rule expo_bounds)
    then have n: "int (nat (expo a + 1074)) = expo a + 1074" by simp
    have "(2::real) powi expo a = 2 powi ((expo a + 1074) + (- 1074))" by simp
    also have "\<dots> = 2 powi (expo a + 1074) * 2 powi (- 1074)"
      by (rule power_int_add) simp
    also have "(2::real) powi (expo a + 1074) = 2 powi (int (nat (expo a + 1074)))"
      by (simp only: n)
    also have "\<dots> = of_int (2 ^ nat (expo a + 1074))"
      by (simp only: power_int_of_nat) simp
    finally have "nearest a = of_int (round_half_even (a / 2 powi expo a) * 2 ^ nat (expo a + 1074))
        * 2 powi (- 1074)"
      by (simp add: nearest_eq)
    then show ?thesis by blast
  qed
  show ?thesis
  proof (cases "0 \<le> d")
    case True
    then have "d = nearest d"
      using assms by (auto simp: is_double_def round64_def round_pos_def split: if_splits)
    then show ?thesis using key[of d] by simp
  next
    case False
    then have "d = - nearest (- d)"
      using assms by (auto simp: is_double_def round64_def round_pos_def split: if_splits)
    moreover obtain k :: int where "nearest (- d) = of_int k * 2 powi (- 1074)" using key[of "- d"] by blast
    ultimately have "d = of_int (- k) * 2 powi (- 1074)" by simp
    then show ?thesis by blast
  qed
qed

lemma double_gap:
  assumes "is_double a" "is_double b" "a < b"
  shows "2 powi (- 1074) \<le> b - a"
proof -
  obtain ka :: int where a: "a = of_int ka * 2 powi (- 1074)" using is_double_multiple[OF assms(1)] by blast
  obtain kb :: int where b: "b = of_int kb * 2 powi (- 1074)" using is_double_multiple[OF assms(2)] by blast
  have "(of_int ka :: real) < of_int kb"
    using assms(3) unfolding a b by (simp add: mult_less_cancel_right)
  then have "ka < kb" by simp
  then have "1 \<le> kb - ka" by simp
  then have "(of_int 1 :: real) \<le> of_int (kb - ka)" by (simp only: of_int_le_iff)
  then have "1 * 2 powi (- 1074) \<le> (of_int (kb - ka) :: real) * 2 powi (- 1074)"
    by (intro mult_right_mono) simp_all
  then show ?thesis unfolding a b by (simp add: algebra_simps)
qed

lemma is_double_tiny: "is_double (2 powi (- 1074))"
  unfolding is_double_def
  by (simp add: round64_eval[where e = "- 1074"] round_half_even_def double_limit_def)

lemma is_double_0: "is_double 0"
  by (simp add: is_double_def)

lemma is_double_1: "is_double 1"
  unfolding is_double_def
  by (simp add: round64_eval[where e = "- 52"] round_half_even_def double_limit_def)

lemma round64_le_double: "is_double d \<Longrightarrow> x \<le> d \<Longrightarrow> js_le (round64 x) (Fin d)"
  using round64_mono[of x d] by (simp add: is_double_def)

lemma round64_ge_double: "is_double d \<Longrightarrow> d \<le> x \<Longrightarrow> js_le (Fin d) (round64 x)"
  using round64_mono[of d x] by (simp add: is_double_def)

lemma round64_diff_pos:
  assumes "is_double a" "is_double b" "a < b"
  shows "js_le (Fin (2 powi (- 1074))) (round64 (b - a))"
  by (rule round64_ge_double[OF is_double_tiny double_gap[OF assms]])

section \<open>Properties of the scaler\<close>

subsection \<open>The operations are monotone\<close>

lemma js_le_between:
  assumes "js_le (Fin a) t" "js_le t (Fin b)"
  obtains r where "t = Fin r" "a \<le> r" "r \<le> b"
  using assms by (cases t) (simp_all add: js_le_def)

lemma js_sub_mono: "x \<le> y \<Longrightarrow> js_le (js_sub (Fin x) (Fin c)) (js_sub (Fin y) (Fin c))"
  by (simp add: round64_mono)

lemma js_div_mono:
  assumes "0 < R" "js_le a b"
  shows "js_le (js_div a (Fin R)) (js_div b (Fin R))"
proof (cases a; cases b)
  fix x y assume "a = Fin x" "b = Fin y"
  then show ?thesis using assms by (simp add: round64_mono divide_right_mono)
qed (use assms in \<open>simp_all add: signed_inf_def\<close>)

lemma js_mul_mono:
  assumes "0 < s" "js_le a b"
  shows "js_le (js_mul a (Fin s)) (js_mul b (Fin s))"
proof (cases a; cases b)
  fix x y assume "a = Fin x" "b = Fin y"
  then show ?thesis using assms by (simp add: round64_mono mult_right_mono)
qed (use assms in \<open>simp_all add: signed_inf_def\<close>)

lemma Math_pow_unit:
  assumes "0 \<le> q" "q \<le> 1" "0 \<le> e"
  shows "in_unit (Math_pow (Fin q) (Fin e))"
proof (cases "e = 0 \<or> q = 0")
  case True
  then show ?thesis using assms by auto
next
  case False
  then have q: "0 < q" and e: "e \<noteq> 0" using assms by simp_all
  have "0 \<le> q powr e" by simp
  then have 1: "js_le (Fin 0) (round64 (q powr e))" by (rule round64_ge_double[OF is_double_0])
  have "q powr e \<le> 1" using assms by (intro powr_le1) simp_all
  then have 2: "js_le (round64 (q powr e)) (Fin 1)" by (rule round64_le_double[OF is_double_1])
  show ?thesis
    by (rule js_le_between[OF 1 2]) (use q e in simp)
qed

lemma Math_pow_mono:
  assumes "0 < e" "0 \<le> x" "x \<le> y"
  shows "js_le (Math_pow (Fin x) (Fin e)) (Math_pow (Fin y) (Fin e))"
proof (cases "x = 0")
  case True
  show ?thesis
  proof (cases "y = 0")
    case False
    then have "0 \<le> y powr e" by simp
    then have "js_le (Fin 0) (round64 (y powr e))" by (rule round64_ge_double[OF is_double_0])
    then show ?thesis using assms True False by simp
  qed (use assms True in simp)
next
  case False
  then have x: "0 < x" and y: "0 < y" using assms by simp_all
  have "x powr e \<le> y powr e" using assms by (intro powr_mono2) simp_all
  then show ?thesis using x y assms(1) by (simp add: round64_mono)
qed

lemma clamp_Fin: "Math_min [Fin 1, Math_max [Fin 0, Fin t]] = Fin (min 1 (max 0 t))"
  by (simp add: Math_min_def Math_max_def min2_def max2_def)

lemma clamp_PInf: "Math_min [Fin 1, Math_max [Fin 0, PInf]] = Fin 1"
  by (simp add: Math_min_def Math_max_def min2_def max2_def)

lemma clamp_NInf: "Math_min [Fin 1, Math_max [Fin 0, NInf]] = Fin 0"
  by (simp add: Math_min_def Math_max_def min2_def max2_def)

lemma clamp_unit: "t \<noteq> NaN \<Longrightarrow> in_unit (Math_min [Fin 1, Math_max [Fin 0, t]])"
  by (cases t) (simp_all add: clamp_Fin clamp_PInf clamp_NInf)

lemma clamp_mono:
  assumes "js_le a b"
  shows "js_le (Math_min [Fin 1, Math_max [Fin 0, a]]) (Math_min [Fin 1, Math_max [Fin 0, b]])"
  using assms by (cases a; cases b) (simp_all add: clamp_Fin clamp_PInf clamp_NInf js_le_def)

lemma clamp_ge_1:
  assumes "js_le (Fin 1) t"
  shows "Math_min [Fin 1, Math_max [Fin 0, t]] = Fin 1"
  using assms by (cases t) (simp_all add: clamp_Fin clamp_PInf clamp_NInf js_le_def)

subsection \<open>Least and greatest element\<close>

lemma fold_min2_Fin: "fold min2 (map Fin v) (Fin a) = Fin (fold min v a)"
  by (induction v arbitrary: a) (auto simp: min2_def min_def)

lemma fold_max2_Fin: "fold max2 (map Fin v) (Fin a) = Fin (fold max v a)"
  by (induction v arbitrary: a) (auto simp: max2_def max_def)

lemma Math_min_Fin: "v \<noteq> [] \<Longrightarrow> Math_min (map Fin v) = Fin (Min (set v))"
proof (cases v)
  case Nil then show "v \<noteq> [] \<Longrightarrow> ?thesis" by simp
next
  case (Cons a w)
  have "Math_min (map Fin v) = fold min2 (map Fin w) (Fin a)"
    by (simp add: Cons Math_min_def min2_def)
  also have "\<dots> = Fin (fold min w a)" by (rule fold_min2_Fin)
  also have "fold min w a = Min (set v)" using Min.set_eq_fold[of a w] by (simp add: Cons)
  finally show ?thesis .
qed

lemma Math_max_Fin: "v \<noteq> [] \<Longrightarrow> Math_max (map Fin v) = Fin (Max (set v))"
proof (cases v)
  case Nil then show "v \<noteq> [] \<Longrightarrow> ?thesis" by simp
next
  case (Cons a w)
  have "Math_max (map Fin v) = fold max2 (map Fin w) (Fin a)"
    by (simp add: Cons Math_max_def max2_def)
  also have "\<dots> = Fin (fold max w a)" by (rule fold_max2_Fin)
  also have "fold max w a = Max (set v)" using Max.set_eq_fold[of a w] by (simp add: Cons)
  finally show ?thesis .
qed

subsection \<open>The range and the distances from the least element\<close>

lemma association_vector_facts:
  assumes "association_vector v"
  shows "v \<noteq> []" "Min (set v) \<in> set v" "Max (set v) \<in> set v"
    "is_double (Min (set v))" "is_double (Max (set v))" "0 \<le> Min (set v)"
    "Min (set v) < Max (set v)"
    "\<And>x. x \<in> set v \<Longrightarrow> is_double x \<and> Min (set v) \<le> x \<and> x \<le> Max (set v)"
proof -
  show ne: "v \<noteq> []" and lt: "Min (set v) < Max (set v)"
    using assms by (simp_all add: association_vector_def)
  show mn: "Min (set v) \<in> set v" and mx: "Max (set v) \<in> set v"
    using ne by (simp_all add: Min_in Max_in)
  have d: "is_double x" and p: "0 \<le> x" if "x \<in> set v" for x
    using assms that by (simp_all add: association_vector_def list_all_iff)
  show "is_double (Min (set v))" "is_double (Max (set v))" "0 \<le> Min (set v)"
    using d[OF mn] d[OF mx] p[OF mn] by simp_all
  show "is_double x \<and> Min (set v) \<le> x \<and> x \<le> Max (set v)" if "x \<in> set v" for x
    using d[OF that] that by simp
qed

lemma range_double:
  assumes "association_vector v"
  obtains R where "round64 (Max (set v) - Min (set v)) = Fin R" "0 < R" "is_double R"
proof -
  note f = association_vector_facts[OF assms]
  have 1: "js_le (Fin (2 powi (- 1074))) (round64 (Max (set v) - Min (set v)))"
    by (rule round64_diff_pos[OF f(4) f(5) f(7)])
  have "Max (set v) - Min (set v) \<le> Max (set v)" using f(6) by simp
  then have 2: "js_le (round64 (Max (set v) - Min (set v))) (Fin (Max (set v)))"
    by (rule round64_le_double[OF f(5)])
  show ?thesis
  proof (rule js_le_between[OF 1 2])
    fix r assume r: "round64 (Max (set v) - Min (set v)) = Fin r" "2 powi (- 1074) \<le> r"
    have "(0::real) < 2 powi (- 1074)" by simp
    then have "0 < r" using r(2) by linarith
    then show ?thesis using that r(1) round64_idem[OF r(1)] by blast
  qed
qed

lemma distance_double:
  assumes "association_vector v" "x \<in> set v" "round64 (Max (set v) - Min (set v)) = Fin R"
  obtains n where "round64 (x - Min (set v)) = Fin n" "0 \<le> n" "n \<le> R"
proof -
  note f = association_vector_facts[OF assms(1)]
  have "0 \<le> x - Min (set v)" using f(8)[OF assms(2)] by simp
  then have 1: "js_le (Fin 0) (round64 (x - Min (set v)))"
    by (rule round64_ge_double[OF is_double_0])
  have "x - Min (set v) \<le> Max (set v) - Min (set v)" using f(8)[OF assms(2)] by simp
  then have "js_le (round64 (x - Min (set v))) (round64 (Max (set v) - Min (set v)))"
    by (rule round64_mono)
  then have 2: "js_le (round64 (x - Min (set v))) (Fin R)" by (simp only: assms(3))
  show ?thesis by (rule js_le_between[OF 1 2]) (rule that)
qed

subsection \<open>Closed forms on finite inputs\<close>

lemma scaleAssociations_v2_Fin:
  assumes "v \<noteq> []"
  shows "scaleAssociations_v2 (map Fin v) expArg =
     map (\<lambda>x. Math_pow (js_div (round64 (x - Min (set v))) (round64 (Max (set v) - Min (set v))))
                (case expArg of None \<Rightarrow> Fin 3 | Some e \<Rightarrow> e)) v"
  using assms
  by (simp add: scaleAssociations_v2_def Math_min_Fin Math_max_Fin Let_def comp_def)

lemma scaleAssociations_v1_v2: "scaleAssociations_v1 xs = scaleAssociations_v2 xs None"
  by (simp add: scaleAssociations_v1_def scaleAssociations_v2_def)

lemma scaleAssociations_v3_Fin:
  assumes "v \<noteq> []"
  shows "scaleAssociations_v3 (map Fin v) scaleByArg =
     map (\<lambda>x. Math_min [Fin 1, Math_max [Fin 0,
                  js_div (js_mul (round64 (x - Min (set v)))
                            (case scaleByArg of None \<Rightarrow> Fin 2 | Some s \<Rightarrow> s))
                    (round64 (Max (set v) - Min (set v)))]]) v"
  using assms
  by (simp add: scaleAssociations_v3_def Math_min_Fin Math_max_Fin Let_def comp_def)

subsection \<open>The normalised value\<close>

lemma quotient_unit:
  assumes "association_vector v" "x \<in> set v" "round64 (Max (set v) - Min (set v)) = Fin R" "0 < R"
  obtains q where "js_div (round64 (x - Min (set v))) (Fin R) = Fin q" "0 \<le> q" "q \<le> 1"
proof -
  obtain n where n: "round64 (x - Min (set v)) = Fin n" "0 \<le> n" "n \<le> R"
    by (rule distance_double[OF assms(1-3)])
  have "0 \<le> n / R" using n(2) assms(4) by simp
  then have 1: "js_le (Fin 0) (round64 (n / R))" by (rule round64_ge_double[OF is_double_0])
  have "n / R \<le> 1" using n(3) assms(4) by simp
  then have 2: "js_le (round64 (n / R)) (Fin 1)" by (rule round64_le_double[OF is_double_1])
  show ?thesis
    by (rule js_le_between[OF 1 2]) (use n(1) assms(4) in \<open>auto intro: that\<close>)
qed

lemma quotient_mono:
  assumes "0 < R" "x \<le> y"
  shows "js_le (js_div (round64 (x - c)) (Fin R)) (js_div (round64 (y - c)) (Fin R))"
  using assms by (intro js_div_mono round64_mono) simp_all

lemma quotient_min: "0 < R \<Longrightarrow> js_div (round64 (c - c)) (Fin R) = Fin 0"
  by simp

lemma quotient_max: "0 < R \<Longrightarrow> js_div (Fin R) (Fin R) = Fin 1"
  using is_double_1 by (simp add: is_double_def)

subsection \<open>Entries of the first and second revision\<close>

lemma pow_entry_unit:
  assumes "association_vector v" "x \<in> set v" "0 \<le> e"
  shows "in_unit (Math_pow (js_div (round64 (x - Min (set v))) (round64 (Max (set v) - Min (set v))))
                   (Fin e))"
proof -
  obtain R where R: "round64 (Max (set v) - Min (set v)) = Fin R" "0 < R" "is_double R"
    by (rule range_double[OF assms(1)])
  obtain q where q: "js_div (round64 (x - Min (set v))) (Fin R) = Fin q" "0 \<le> q" "q \<le> 1"
    by (rule quotient_unit[OF assms(1,2) R(1,2)])
  show ?thesis unfolding R(1) q(1) by (rule Math_pow_unit[OF q(2,3) assms(3)])
qed

lemma pow_entry_mono:
  assumes "association_vector v" "x \<in> set v" "y \<in> set v" "x \<le> y" "0 < e"
  shows "js_le (Math_pow (js_div (round64 (x - Min (set v))) (round64 (Max (set v) - Min (set v)))) (Fin e))
               (Math_pow (js_div (round64 (y - Min (set v))) (round64 (Max (set v) - Min (set v)))) (Fin e))"
proof -
  obtain R where R: "round64 (Max (set v) - Min (set v)) = Fin R" "0 < R" "is_double R"
    by (rule range_double[OF assms(1)])
  obtain q where q: "js_div (round64 (x - Min (set v))) (Fin R) = Fin q" "0 \<le> q" "q \<le> 1"
    by (rule quotient_unit[OF assms(1,2) R(1,2)])
  obtain r where r: "js_div (round64 (y - Min (set v))) (Fin R) = Fin r" "0 \<le> r" "r \<le> 1"
    by (rule quotient_unit[OF assms(1,3) R(1,2)])
  have "q \<le> r" using quotient_mono[OF R(2) assms(4), of "Min (set v)"] by (simp add: q(1) r(1))
  then show ?thesis unfolding R(1) q(1) r(1) by (rule Math_pow_mono[OF assms(5) q(2)])
qed

lemma pow_entry_min:
  assumes "association_vector v" "0 < e"
  shows "Math_pow (js_div (round64 (Min (set v) - Min (set v))) (round64 (Max (set v) - Min (set v))))
           (Fin e) = Fin 0"
proof -
  obtain R where R: "round64 (Max (set v) - Min (set v)) = Fin R" "0 < R" "is_double R"
    by (rule range_double[OF assms(1)])
  show ?thesis using R(2) assms(2) by (simp add: R(1))
qed

lemma pow_entry_max:
  assumes "association_vector v" "0 < e"
  shows "Math_pow (js_div (round64 (Max (set v) - Min (set v))) (round64 (Max (set v) - Min (set v))))
           (Fin e) = Fin 1"
proof -
  obtain R where R: "round64 (Max (set v) - Min (set v)) = Fin R" "0 < R" "is_double R"
    by (rule range_double[OF assms(1)])
  have "js_div (Fin R) (Fin R) = Fin 1" by (rule quotient_max[OF R(2)])
  moreover have "round64 1 = Fin 1" using is_double_1 by (simp add: is_double_def)
  ultimately show ?thesis using assms(2) by (simp add: R(1))
qed

subsection \<open>Entries of the third revision\<close>

lemma clamp_entry_unit:
  assumes "association_vector v" "x \<in> set v"
  shows "in_unit (Math_min [Fin 1, Math_max [Fin 0,
           js_div (js_mul (round64 (x - Min (set v))) (Fin s))
             (round64 (Max (set v) - Min (set v)))]])"
proof -
  obtain R where R: "round64 (Max (set v) - Min (set v)) = Fin R" "0 < R" "is_double R"
    by (rule range_double[OF assms(1)])
  obtain n where n: "round64 (x - Min (set v)) = Fin n" "0 \<le> n" "n \<le> R"
    by (rule distance_double[OF assms(1,2) R(1)])
  have "js_div (round64 (n * s)) (Fin R) \<noteq> NaN"
    using R(2) by (cases "round64 (n * s)") (simp_all add: signed_inf_def)
  then show ?thesis unfolding R(1) n(1) by (intro clamp_unit) simp
qed

lemma clamp_entry_mono:
  assumes "association_vector v" "x \<le> y"
  shows "js_le (Math_min [Fin 1, Math_max [Fin 0,
                  js_div (js_mul (round64 (x - Min (set v))) (Fin 2))
                    (round64 (Max (set v) - Min (set v)))]])
               (Math_min [Fin 1, Math_max [Fin 0,
                  js_div (js_mul (round64 (y - Min (set v))) (Fin 2))
                    (round64 (Max (set v) - Min (set v)))]])"
proof -
  obtain R where R: "round64 (Max (set v) - Min (set v)) = Fin R" "0 < R" "is_double R"
    by (rule range_double[OF assms(1)])
  have "js_le (round64 (x - Min (set v))) (round64 (y - Min (set v)))"
    using assms(2) by (intro round64_mono) simp
  then show ?thesis unfolding R(1)
    by (intro clamp_mono js_div_mono[OF R(2)] js_mul_mono) simp_all
qed

lemma clamp_entry_min:
  assumes "association_vector v"
  shows "Math_min [Fin 1, Math_max [Fin 0,
           js_div (js_mul (round64 (Min (set v) - Min (set v))) (Fin 2))
             (round64 (Max (set v) - Min (set v)))]] = Fin 0"
proof -
  obtain R where R: "round64 (Max (set v) - Min (set v)) = Fin R" "0 < R" "is_double R"
    by (rule range_double[OF assms(1)])
  show ?thesis using R(2) by (simp add: R(1) clamp_Fin)
qed

lemma clamp_entry_saturated:
  assumes "association_vector v"
    and "js_le (round64 (Max (set v) - Min (set v))) (js_mul (round64 (x - Min (set v))) (Fin 2))"
  shows "Math_min [Fin 1, Math_max [Fin 0,
           js_div (js_mul (round64 (x - Min (set v))) (Fin 2))
             (round64 (Max (set v) - Min (set v)))]] = Fin 1"
proof -
  obtain R where R: "round64 (Max (set v) - Min (set v)) = Fin R" "0 < R" "is_double R"
    by (rule range_double[OF assms(1)])
  have "js_le (js_div (Fin R) (Fin R)) (js_div (js_mul (round64 (x - Min (set v))) (Fin 2)) (Fin R))"
    using assms(2) unfolding R(1) by (rule js_div_mono[OF R(2)])
  then have "js_le (Fin 1) (js_div (js_mul (round64 (x - Min (set v))) (Fin 2)) (Fin R))"
    by (simp only: quotient_max[OF R(2)])
  then show ?thesis unfolding R(1) by (rule clamp_ge_1)
qed

lemma clamp_entry_max:
  assumes "association_vector v"
  shows "Math_min [Fin 1, Math_max [Fin 0,
           js_div (js_mul (round64 (Max (set v) - Min (set v))) (Fin 2))
             (round64 (Max (set v) - Min (set v)))]] = Fin 1"
proof -
  obtain R where R: "round64 (Max (set v) - Min (set v)) = Fin R" "0 < R" "is_double R"
    by (rule range_double[OF assms(1)])
  have "R \<le> R * 2" using R(2) by simp
  then have "js_le (Fin R) (round64 (R * 2))" by (rule round64_ge_double[OF R(3)])
  then show ?thesis
    by (intro clamp_entry_saturated[OF assms]) (simp add: R(1))
qed

subsection \<open>Order and extremes of a scaled vector\<close>

lemma rank_monotone_map:
  assumes "\<And>x y. x \<in> set v \<Longrightarrow> y \<in> set v \<Longrightarrow> x < y \<Longrightarrow> js_le (f x) (f y)"
  shows "rank_monotone (map Fin v) (map f v)"
  using assms by (auto simp: rank_monotone_def)

lemma extremes_kept_map:
  assumes "v \<noteq> []" "f (Min (set v)) = Fin 0" "f (Max (set v)) = Fin 1"
  shows "extremes_kept (map Fin v) (map f v)"
  using assms by (auto simp: extremes_kept_def Math_min_Fin Math_max_Fin)

lemma upper_half_saturated_map:
  assumes "v \<noteq> []"
    and "\<And>x. x \<in> set v \<Longrightarrow>
           js_le (round64 (Max (set v) - Min (set v))) (js_mul (round64 (x - Min (set v))) (Fin 2))
           \<Longrightarrow> f x = Fin 1"
  shows "upper_half_saturated (map Fin v) (map f v)"
  using assms by (auto simp: upper_half_saturated_def Math_min_Fin Math_max_Fin)

lemma is_double_4: "is_double 4"
  unfolding is_double_def
  by (simp add: round64_eval[where e = "- 50"] round_half_even_def double_limit_def)

lemma is_double_3: "is_double 3"
  unfolding is_double_def
  by (simp add: round64_eval[where e = "- 51"] round_half_even_def double_limit_def)

lemma association_vector_014: "association_vector [0, 1, 4]"
  by (simp add: association_vector_def is_double_0 is_double_1 is_double_4)

lemma association_vector_013: "association_vector [0, 1, 3]"
  by (simp add: association_vector_def is_double_0 is_double_1 is_double_3)

lemma rank_preserving_tie:
  assumes "i < length xs" "j < length xs" "js_lt (xs ! i) (xs ! j)" "\<not> js_lt (ys ! i) (ys ! j)"
  shows "\<not> rank_preserving xs ys"
  using assms by (auto simp: rank_preserving_def)

lemma Math_pow_cube: "0 \<le> q \<Longrightarrow> Math_pow (Fin q) (Fin 3) = round64 (q ^ 3)"
  by (cases "q = 0") simp_all

subsection \<open>The scaler on the heap and on lists\<close>

lemma scaleAssociations_v2_h_eq:
  "scaleAssociations_v2_h h a expArg =
     (h @ [map (\<lambda>v. js_div (js_sub v (Math_min (h ! a))) (js_sub (Math_max (h ! a)) (Math_min (h ! a)))) (h ! a),
           scaleAssociations_v2 (h ! a) expArg],
      Suc (length h))"
  by (simp add: scaleAssociations_v2_h_def scaleAssociations_v2_def array_map_def Let_def nth_append)

lemma scaleAssociations_v1_h_eq:
  "scaleAssociations_v1_h h a =
     (h @ [map (\<lambda>v. js_div (js_sub v (Math_min (h ! a))) (js_sub (Math_max (h ! a)) (Math_min (h ! a)))) (h ! a),
           scaleAssociations_v1 (h ! a)],
      Suc (length h))"
  by (simp add: scaleAssociations_v1_h_def scaleAssociations_v1_def array_map_def Let_def nth_append)

lemma scaleAssociations_v3_h_eq:
  "scaleAssociations_v3_h h a scaleByArg =
     (h @ [map (\<lambda>v. js_div (js_mul (js_sub v (Math_min (h ! a)))
                        (case scaleByArg of None \<Rightarrow> Fin 2 | Some s \<Rightarrow> s))
                      (js_sub (Math_max (h ! a)) (Math_min (h ! a)))) (h ! a),
           scaleAssociations_v3 (h ! a) scaleByArg],
      Suc (length h))"
  by (simp add: scaleAssociations_v3_h_def scaleAssociations_v3_def array_map_def Let_def nth_append)

lemma scale_v3_012: "scale_v3 [Fin 0, Fin 1, Fin 2] = [Fin 0, Fin 1, Fin 1]"
proof -
  have r0: "round64 (1) = Fin 1"
    by (simp add: round64_eval[where e = "- 52"] round_half_even_def double_limit_def)
  have r1: "round64 (2) = Fin 2"
    by (simp add: round64_eval[where e = "- 51"] round_half_even_def double_limit_def)
  have r2: "round64 (4) = Fin 4"
    by (simp add: round64_eval[where e = "- 50"] round_half_even_def double_limit_def)
  show ?thesis
    by (simp add: scale_v3_def Let_def scaleAssociations_v3_def Math_min_def Math_max_def min2_def max2_def r0 r1 r2)
qed

subsection \<open>The degenerate vector\<close>

text \<open>
  C1. The claim: a vector whose maximum equals its minimum is scaled to a
  defined constant vector, never to NaN. On \<open>[5, 5, 5]\<close> every revision
  divides \<open>0\<close> by \<open>0\<close> and returns NaN in every entry; the clamp of the third
  revision lets NaN through.
\<close>

theorem scaleAssociations_degenerate_NaN:
  "scaleAssociations_v1 [Fin 5, Fin 5, Fin 5] = [NaN, NaN, NaN]
   \<and> scaleAssociations_v2 [Fin 5, Fin 5, Fin 5] None = [NaN, NaN, NaN]
   \<and> scaleAssociations_v3 [Fin 5, Fin 5, Fin 5] None = [NaN, NaN, NaN]"
  by (simp add: scaleAssociations_v1_def scaleAssociations_v2_def scaleAssociations_v3_def
      Math_min_def Math_max_def min2_def max2_def)

subsection \<open>Rank order\<close>

text \<open>
  C2, as stated: for an input with at least two distinct values the scaled
  outputs are ordered exactly as the inputs. Four inputs show what fails.
  The third revision doubles the normalised value and clamps it, so
  \<open>[0, 1, 2]\<close> is scaled to \<open>[0, 1, 1]\<close> and the inputs \<open>1 < 2\<close> are tied. In
  the first revision, and in the second with its default exponent, the cubes
  of \<open>2^-400\<close> and \<open>2^-399\<close> both underflow to \<open>0\<close>.
  In the third revision \<open>2^53 + 4\<close> and \<open>2^53 + 6\<close>, both far below the midpoint
  of \<open>[1, 2^60]\<close>, lose their difference when \<open>1\<close> is subtracted and rounded.
  With a negative entry, as in \<open>[-2^1023, 0, 2^1023]\<close>, the range overflows and
  entries become NaN, which is ordered with nothing.
\<close>

theorem scaleAssociations_rank_counterexample:
  "scaleAssociations_v3 [Fin 0, Fin 1, Fin 2] None = [Fin 0, Fin 1, Fin 1]
   \<and> \<not> rank_preserving [Fin 0, Fin 1, Fin 2] (scaleAssociations_v3 [Fin 0, Fin 1, Fin 2] None)
   \<and> scaleAssociations_v1 [Fin 0, Fin (2 powi (- 400)), Fin (2 powi (- 399)), Fin 1]
       = [Fin 0, Fin 0, Fin 0, Fin 1]
   \<and> \<not> rank_preserving [Fin 0, Fin (2 powi (- 400)), Fin (2 powi (- 399)), Fin 1]
         (scaleAssociations_v1 [Fin 0, Fin (2 powi (- 400)), Fin (2 powi (- 399)), Fin 1])
   \<and> \<not> rank_preserving [Fin 0, Fin (2 powi (- 400)), Fin (2 powi (- 399)), Fin 1]
         (scaleAssociations_v2 [Fin 0, Fin (2 powi (- 400)), Fin (2 powi (- 399)), Fin 1] None)
   \<and> scaleAssociations_v3 [Fin 1, Fin (2 ^ 53 + 4), Fin (2 ^ 53 + 6), Fin (2 ^ 60)] None
       = [Fin 0, Fin (2251799813685249 / 144115188075855872), Fin (2251799813685249 / 144115188075855872), Fin 1]
   \<and> \<not> rank_preserving [Fin 1, Fin (2 ^ 53 + 4), Fin (2 ^ 53 + 6), Fin (2 ^ 60)]
         (scaleAssociations_v3 [Fin 1, Fin (2 ^ 53 + 4), Fin (2 ^ 53 + 6), Fin (2 ^ 60)] None)
   \<and> scaleAssociations_v3 [Fin (- (2 ^ 1023)), Fin 0, Fin (2 ^ 1023)] None = [Fin 0, NaN, NaN]
   \<and> \<not> rank_preserving [Fin (- (2 ^ 1023)), Fin 0, Fin (2 ^ 1023)]
         (scaleAssociations_v3 [Fin (- (2 ^ 1023)), Fin 0, Fin (2 ^ 1023)] None)"
proof -
  have r0: "round64 (1 / 2582249878086908589655919172003011874329705792829223512830659356540647622016841194629645353280137831435903171972747493376) = Fin (1 / 2582249878086908589655919172003011874329705792829223512830659356540647622016841194629645353280137831435903171972747493376)"
    by (simp add: round64_eval[where e = "- 452"] round_half_even_def double_limit_def)
  have r1: "round64 (1 / 1291124939043454294827959586001505937164852896414611756415329678270323811008420597314822676640068915717951585986373746688) = Fin (1 / 1291124939043454294827959586001505937164852896414611756415329678270323811008420597314822676640068915717951585986373746688)"
    by (simp add: round64_eval[where e = "- 451"] round_half_even_def double_limit_def)
  have r2: "round64 (2251799813685249 / 144115188075855872) = Fin (2251799813685249 / 144115188075855872)"
    by (simp add: round64_eval[where e = "- 58"] round_half_even_def double_limit_def)
  have r3: "round64 (1) = Fin 1"
    by (simp add: round64_eval[where e = "- 52"] round_half_even_def double_limit_def)
  have r4: "round64 (2) = Fin 2"
    by (simp add: round64_eval[where e = "- 51"] round_half_even_def double_limit_def)
  have r5: "round64 (4) = Fin 4"
    by (simp add: round64_eval[where e = "- 50"] round_half_even_def double_limit_def)
  have r6: "round64 (9007199254740995) = Fin 9007199254740996"
    by (simp add: round64_eval[where e = "1"] round_half_even_def double_limit_def)
  have r7: "round64 (9007199254740997) = Fin 9007199254740996"
    by (simp add: round64_eval[where e = "1"] round_half_even_def double_limit_def)
  have r8: "round64 (18014398509481992) = Fin 18014398509481992"
    by (simp add: round64_eval[where e = "2"] round_half_even_def double_limit_def)
  have r9: "round64 (1152921504606846975) = Fin 1152921504606846976"
    by (simp add: round64_eval[where e = "7"] round_half_even_def double_limit_def)
  have r10: "round64 (2305843009213693952) = Fin 2305843009213693952"
    by (simp add: round64_eval[where e = "9"] round_half_even_def double_limit_def)
  have r11: "round64 (89884656743115795386465259539451236680898848947115328636715040578866337902750481566354238661203768010560056939935696678829394884407208311246423715319737062188883946712432742638151109800623047059726541476042502884419075341171231440736956555270413618581675255342293149119973622969239858152417678164812112068608) = Fin 89884656743115795386465259539451236680898848947115328636715040578866337902750481566354238661203768010560056939935696678829394884407208311246423715319737062188883946712432742638151109800623047059726541476042502884419075341171231440736956555270413618581675255342293149119973622969239858152417678164812112068608"
    by (simp add: round64_eval[where e = "971"] round_half_even_def double_limit_def)
  have r12: "round64 (179769313486231590772930519078902473361797697894230657273430081157732675805500963132708477322407536021120113879871393357658789768814416622492847430639474124377767893424865485276302219601246094119453082952085005768838150682342462881473913110540827237163350510684586298239947245938479716304835356329624224137216) = PInf"
    by (simp add: round64_eval[where e = "971"] round_half_even_def double_limit_def)
  have rp0: "round64 ((1 / 2582249878086908589655919172003011874329705792829223512830659356540647622016841194629645353280137831435903171972747493376) ^ 3) = Fin 0"
    by (simp add: round64_eval[where e = "- 1074"] round_half_even_def double_limit_def power_divide)
  have rp1: "round64 ((1 / 1291124939043454294827959586001505937164852896414611756415329678270323811008420597314822676640068915717951585986373746688) ^ 3) = Fin 0"
    by (simp add: round64_eval[where e = "- 1074"] round_half_even_def double_limit_def power_divide)
  have a: "scaleAssociations_v3 [Fin 0, Fin 1, Fin 2] None = [Fin 0, Fin 1, Fin 1]"
    by (simp add: Let_def scaleAssociations_v3_def Math_min_def Math_max_def min2_def max2_def
        r0 r1 r2 r3 r4 r5 r6 r7 r8 r9 r10 r11 r12 rp0 rp1)
  have a': "\<not> rank_preserving [Fin 0, Fin 1, Fin 2] (scaleAssociations_v3 [Fin 0, Fin 1, Fin 2] None)"
    unfolding a by (rule rank_preserving_tie[of 1 _ 2]) simp_all
  have c: "scaleAssociations_v1 [Fin 0, Fin (2 powi (- 400)), Fin (2 powi (- 399)), Fin 1]
       = [Fin 0, Fin 0, Fin 0, Fin 1]"
    by (simp add: Let_def scaleAssociations_v1_def Math_min_def Math_max_def min2_def max2_def
        r0 r1 r2 r3 r4 r5 r6 r7 r8 r9 r10 r11 r12 rp0 rp1)
  have c': "\<not> rank_preserving [Fin 0, Fin (2 powi (- 400)), Fin (2 powi (- 399)), Fin 1]
         (scaleAssociations_v1 [Fin 0, Fin (2 powi (- 400)), Fin (2 powi (- 399)), Fin 1])"
    unfolding c by (rule rank_preserving_tie[of 1 _ 2]) simp_all
  have c'': "\<not> rank_preserving [Fin 0, Fin (2 powi (- 400)), Fin (2 powi (- 399)), Fin 1]
         (scaleAssociations_v2 [Fin 0, Fin (2 powi (- 400)), Fin (2 powi (- 399)), Fin 1] None)"
    using c' unfolding scaleAssociations_v1_v2 .
  have d: "scaleAssociations_v3 [Fin 1, Fin (2 ^ 53 + 4), Fin (2 ^ 53 + 6), Fin (2 ^ 60)] None
       = [Fin 0, Fin (2251799813685249 / 144115188075855872), Fin (2251799813685249 / 144115188075855872), Fin 1]"
    by (simp add: Let_def scaleAssociations_v3_def Math_min_def Math_max_def min2_def max2_def
        r0 r1 r2 r3 r4 r5 r6 r7 r8 r9 r10 r11 r12 rp0 rp1)
  have d': "\<not> rank_preserving [Fin 1, Fin (2 ^ 53 + 4), Fin (2 ^ 53 + 6), Fin (2 ^ 60)]
         (scaleAssociations_v3 [Fin 1, Fin (2 ^ 53 + 4), Fin (2 ^ 53 + 6), Fin (2 ^ 60)] None)"
    unfolding d by (rule rank_preserving_tie[of 1 _ 2]) simp_all
  have e: "scaleAssociations_v3 [Fin (- (2 ^ 1023)), Fin 0, Fin (2 ^ 1023)] None = [Fin 0, NaN, NaN]"
    by (simp add: Let_def scaleAssociations_v3_def Math_min_def Math_max_def min2_def max2_def
        r0 r1 r2 r3 r4 r5 r6 r7 r8 r9 r10 r11 r12 rp0 rp1 signed_inf_def)
  have e': "\<not> rank_preserving [Fin (- (2 ^ 1023)), Fin 0, Fin (2 ^ 1023)]
         (scaleAssociations_v3 [Fin (- (2 ^ 1023)), Fin 0, Fin (2 ^ 1023)] None)"
    unfolding e by (rule rank_preserving_tie[of 1 _ 2]) simp_all
  show ?thesis using a a' c c' c'' d d' e e' by blast
qed

text \<open>
  C2, amended: for a vector of finite non-negative numbers with at least two
  distinct values, every revision, called with its default parameter, scales
  a smaller input to an output less than or equal to that of a greater one,
  every occurrence of the least input to \<open>0\<close> and every occurrence of the
  greatest to \<open>1\<close>; the third revision scales to \<open>1\<close> every input whose
  doubled distance from the least input, as computed, reaches the computed
  range. Distinct inputs may be scaled to equal outputs.
\<close>

theorem scaleAssociations_rank_order:
  assumes "association_vector v"
  shows "rank_monotone (map Fin v) (scaleAssociations_v1 (map Fin v))
       \<and> extremes_kept (map Fin v) (scaleAssociations_v1 (map Fin v))
       \<and> rank_monotone (map Fin v) (scaleAssociations_v2 (map Fin v) None)
       \<and> extremes_kept (map Fin v) (scaleAssociations_v2 (map Fin v) None)
       \<and> rank_monotone (map Fin v) (scaleAssociations_v3 (map Fin v) None)
       \<and> extremes_kept (map Fin v) (scaleAssociations_v3 (map Fin v) None)
       \<and> upper_half_saturated (map Fin v) (scaleAssociations_v3 (map Fin v) None)"
proof -
  note f = association_vector_facts[OF assms]
  have m2: "rank_monotone (map Fin v) (scaleAssociations_v2 (map Fin v) None)"
    unfolding scaleAssociations_v2_Fin[OF f(1)] option.case
    by (rule rank_monotone_map) (rule pow_entry_mono[OF assms], simp_all)
  have x2: "extremes_kept (map Fin v) (scaleAssociations_v2 (map Fin v) None)"
    unfolding scaleAssociations_v2_Fin[OF f(1)] option.case
    by (rule extremes_kept_map[OF f(1)]) (rule pow_entry_min[OF assms] pow_entry_max[OF assms], simp)+
  have m3: "rank_monotone (map Fin v) (scaleAssociations_v3 (map Fin v) None)"
    unfolding scaleAssociations_v3_Fin[OF f(1)] option.case
    by (rule rank_monotone_map) (rule clamp_entry_mono[OF assms], simp)
  have x3: "extremes_kept (map Fin v) (scaleAssociations_v3 (map Fin v) None)"
    unfolding scaleAssociations_v3_Fin[OF f(1)] option.case
    by (rule extremes_kept_map[OF f(1)]) (rule clamp_entry_min[OF assms] clamp_entry_max[OF assms])+
  have s3: "upper_half_saturated (map Fin v) (scaleAssociations_v3 (map Fin v) None)"
    unfolding scaleAssociations_v3_Fin[OF f(1)] option.case
    by (rule upper_half_saturated_map[OF f(1)]) (rule clamp_entry_saturated[OF assms])
  show ?thesis using m2 x2 m3 x3 s3 by (simp add: scaleAssociations_v1_v2)
qed

theorem scaleAssociations_rank_order_witness:
  "association_vector [0, 1, 4]
   \<and> rank_monotone (map Fin [0, 1, 4]) (scaleAssociations_v1 (map Fin [0, 1, 4]))
   \<and> extremes_kept (map Fin [0, 1, 4]) (scaleAssociations_v1 (map Fin [0, 1, 4]))
   \<and> rank_monotone (map Fin [0, 1, 4]) (scaleAssociations_v2 (map Fin [0, 1, 4]) None)
   \<and> extremes_kept (map Fin [0, 1, 4]) (scaleAssociations_v2 (map Fin [0, 1, 4]) None)
   \<and> rank_monotone (map Fin [0, 1, 4]) (scaleAssociations_v3 (map Fin [0, 1, 4]) None)
   \<and> extremes_kept (map Fin [0, 1, 4]) (scaleAssociations_v3 (map Fin [0, 1, 4]) None)
   \<and> upper_half_saturated (map Fin [0, 1, 4]) (scaleAssociations_v3 (map Fin [0, 1, 4]) None)"
  using association_vector_014 scaleAssociations_rank_order[OF association_vector_014] by blast

subsection \<open>The range of the outputs\<close>

text \<open>
  C3. For a vector of finite non-negative numbers whose maximum is greater
  than its minimum, every entry of the result is a finite number in
  \<open>[0, 1]\<close>: in the first revision, in the second with its default exponent or
  any finite exponent that is not negative, and in the third with its default
  factor or any finite factor.
\<close>

theorem scaleAssociations_in_unit:
  assumes "association_vector v" and "0 \<le> e"
  shows "list_all in_unit (scaleAssociations_v1 (map Fin v))
       \<and> list_all in_unit (scaleAssociations_v2 (map Fin v) None)
       \<and> list_all in_unit (scaleAssociations_v2 (map Fin v) (Some (Fin e)))
       \<and> list_all in_unit (scaleAssociations_v3 (map Fin v) None)
       \<and> list_all in_unit (scaleAssociations_v3 (map Fin v) (Some (Fin s)))"
proof -
  note f = association_vector_facts[OF assms(1)]
  have p: "list_all in_unit (scaleAssociations_v2 (map Fin v) (Some (Fin e')))" if "0 \<le> e'" for e'
    unfolding scaleAssociations_v2_Fin[OF f(1)] option.case
    using pow_entry_unit[OF assms(1) _ that] by (simp add: list_all_iff del: Math_pow.simps)
  have "list_all in_unit (scaleAssociations_v2 (map Fin v) (Some (Fin 3)))"
    by (rule p) simp
  then have d: "list_all in_unit (scaleAssociations_v2 (map Fin v) None)"
    by (simp add: scaleAssociations_v2_def)
  have c: "list_all in_unit (scaleAssociations_v3 (map Fin v) (Some (Fin s')))" for s'
    unfolding scaleAssociations_v3_Fin[OF f(1)] option.case
    using clamp_entry_unit[OF assms(1)] by (simp add: list_all_iff)
  have "list_all in_unit (scaleAssociations_v3 (map Fin v) (Some (Fin 2)))" by (rule c)
  then have "list_all in_unit (scaleAssociations_v3 (map Fin v) None)"
    by (simp add: scaleAssociations_v3_def)
  then show ?thesis using p[OF assms(2)] d c by (simp add: scaleAssociations_v1_v2)
qed

theorem scaleAssociations_in_unit_witness:
  "association_vector [0, 1, 4] \<and> (0::real) \<le> 2
   \<and> list_all in_unit (scaleAssociations_v1 (map Fin [0, 1, 4]))
   \<and> list_all in_unit (scaleAssociations_v2 (map Fin [0, 1, 4]) None)
   \<and> list_all in_unit (scaleAssociations_v2 (map Fin [0, 1, 4]) (Some (Fin 2)))
   \<and> list_all in_unit (scaleAssociations_v3 (map Fin [0, 1, 4]) None)
   \<and> list_all in_unit (scaleAssociations_v3 (map Fin [0, 1, 4]) (Some (Fin (1 / 2))))"
proof -
  have h: "(0::real) \<le> 2" by simp
  show ?thesis
    using association_vector_014 h
      scaleAssociations_in_unit[OF association_vector_014 h, of "1 / 2"] by blast
qed

subsection \<open>The procedure\<close>

text \<open>
  C4, as stated: every entry \<open>x\<close> is mapped to the normalised value raised to
  the exponent. The third revision has a factor where the claim has an
  exponent, and a clamp: it scales \<open>[0, 1, 2]\<close> to \<open>[0, 1, 1]\<close>, while the
  claim's formula gives \<open>1/4\<close> for the middle entry with exponent \<open>2\<close> and
  \<open>1/8\<close> with exponent \<open>3\<close>.
\<close>

theorem scaleAssociations_v3_formula_counterexample:
  "scaleAssociations_v3 [Fin 0, Fin 1, Fin 2] None = [Fin 0, Fin 1, Fin 1]
   \<and> spec_scale [Fin 0, Fin 1, Fin 2] (Fin 2) = [Fin 0, Fin (1 / 4), Fin 1]
   \<and> spec_scale [Fin 0, Fin 1, Fin 2] (Fin 3) = [Fin 0, Fin (1 / 8), Fin 1]"
proof -
  have r0: "round64 (1 / 2) = Fin (1 / 2)"
    by (simp add: round64_eval[where e = "- 53"] round_half_even_def double_limit_def)
  have r1: "round64 (1) = Fin 1"
    by (simp add: round64_eval[where e = "- 52"] round_half_even_def double_limit_def)
  have r2: "round64 (2) = Fin 2"
    by (simp add: round64_eval[where e = "- 51"] round_half_even_def double_limit_def)
  have r3: "round64 (4) = Fin 4"
    by (simp add: round64_eval[where e = "- 50"] round_half_even_def double_limit_def)
  have rp0: "round64 ((1 / 2) ^ 2) = Fin (1 / 4)"
    by (simp add: round64_eval[where e = "- 54"] round_half_even_def double_limit_def power_divide)
  have rp1: "round64 ((1 / 2) ^ 3) = Fin (1 / 8)"
    by (simp add: round64_eval[where e = "- 55"] round_half_even_def double_limit_def power_divide)
  show ?thesis
    by (simp add: Let_def scaleAssociations_v3_def Math_min_def Math_max_def min2_def max2_def spec_scale_def
        r0 r1 r2 r3 rp0 rp1)
qed

text \<open>
  C4, amended: the first revision, and the second with \<open>exp = 3\<close> by default,
  compute the claim's formula, every operation rounded to binary64; the third
  has no exponent. For a vector of finite non-negative numbers with maximum
  greater than minimum: the first revision maps \<open>x\<close> to the power \<open>3\<close> of the
  quotient of \<open>x - min\<close> by \<open>max - min\<close>; the second maps it to that quotient
  raised to the parameter \<open>exp\<close>; the third maps it to \<open>x - min\<close> times
  \<open>scaleBy\<close>, divided by \<open>max - min\<close> and clamped into \<open>[0, 1]\<close>, with
  \<open>scaleBy = 2\<close> by default. The quotient is a finite number in \<open>[0, 1]\<close>, and
  its power \<open>3\<close> is the rounded cube. On \<open>[0, 1, 3]\<close> the third revision
  returns the binary64 value nearest to \<open>2/3\<close> in the middle.
\<close>

theorem scaleAssociations_formula:
  assumes "association_vector v"
  shows "scaleAssociations_v1 (map Fin v) = spec_scale (map Fin v) (Fin 3)
       \<and> scaleAssociations_v2 (map Fin v) None = spec_scale (map Fin v) (Fin 3)
       \<and> scaleAssociations_v2 (map Fin v) (Some e) = spec_scale (map Fin v) e
       \<and> scaleAssociations_v1 (map Fin v)
           = map (\<lambda>x. Math_pow (js_div (round64 (x - Min (set v)))
                                  (round64 (Max (set v) - Min (set v)))) (Fin 3)) v
       \<and> scaleAssociations_v2 (map Fin v) None
           = map (\<lambda>x. Math_pow (js_div (round64 (x - Min (set v)))
                                  (round64 (Max (set v) - Min (set v)))) (Fin 3)) v
       \<and> scaleAssociations_v2 (map Fin v) (Some e)
           = map (\<lambda>x. Math_pow (js_div (round64 (x - Min (set v)))
                                  (round64 (Max (set v) - Min (set v)))) e) v
       \<and> scaleAssociations_v3 (map Fin v) None
           = map (\<lambda>x. Math_min [Fin 1, Math_max [Fin 0,
                          js_div (js_mul (round64 (x - Min (set v))) (Fin 2))
                            (round64 (Max (set v) - Min (set v)))]]) v
       \<and> scaleAssociations_v3 (map Fin v) (Some s)
           = map (\<lambda>x. Math_min [Fin 1, Math_max [Fin 0,
                          js_div (js_mul (round64 (x - Min (set v))) s)
                            (round64 (Max (set v) - Min (set v)))]]) v
       \<and> list_all (\<lambda>x. \<exists>q. js_div (round64 (x - Min (set v))) (round64 (Max (set v) - Min (set v)))
                              = Fin q \<and> 0 \<le> q \<and> q \<le> 1
                              \<and> Math_pow (Fin q) (Fin 3) = round64 (q ^ 3)) v"
proof -
  note f = association_vector_facts[OF assms]
  obtain R where R: "round64 (Max (set v) - Min (set v)) = Fin R" "0 < R" "is_double R"
    by (rule range_double[OF assms])
  have "\<exists>q. js_div (round64 (x - Min (set v))) (round64 (Max (set v) - Min (set v))) = Fin q
            \<and> 0 \<le> q \<and> q \<le> 1 \<and> Math_pow (Fin q) (Fin 3) = round64 (q ^ 3)"
    if xv: "x \<in> set v" for x
  proof -
    obtain q where q: "js_div (round64 (x - Min (set v))) (Fin R) = Fin q" "0 \<le> q" "q \<le> 1"
      by (rule quotient_unit[OF assms xv R(1,2)])
    show ?thesis using q Math_pow_cube[OF q(2)] unfolding R(1) by blast
  qed
  then have u: "list_all (\<lambda>x. \<exists>q. js_div (round64 (x - Min (set v))) (round64 (Max (set v) - Min (set v)))
                              = Fin q \<and> 0 \<le> q \<and> q \<le> 1
                              \<and> Math_pow (Fin q) (Fin 3) = round64 (q ^ 3)) v"
    by (simp add: list_all_iff del: Math_pow.simps)
  have sp: "scaleAssociations_v2 xs ea = spec_scale xs (case ea of None \<Rightarrow> Fin 3 | Some e \<Rightarrow> e)"
    for xs ea
    by (simp add: scaleAssociations_v2_def spec_scale_def Let_def comp_def)
  have s1: "scaleAssociations_v1 (map Fin v) = spec_scale (map Fin v) (Fin 3)"
    and s2: "scaleAssociations_v2 (map Fin v) None = spec_scale (map Fin v) (Fin 3)"
    and s3: "scaleAssociations_v2 (map Fin v) (Some e) = spec_scale (map Fin v) e"
    by (simp_all add: scaleAssociations_v1_v2 sp)
  have c: "scaleAssociations_v1 (map Fin v)
           = map (\<lambda>x. Math_pow (js_div (round64 (x - Min (set v)))
                                  (round64 (Max (set v) - Min (set v)))) (Fin 3)) v
       \<and> scaleAssociations_v2 (map Fin v) None
           = map (\<lambda>x. Math_pow (js_div (round64 (x - Min (set v)))
                                  (round64 (Max (set v) - Min (set v)))) (Fin 3)) v
       \<and> scaleAssociations_v2 (map Fin v) (Some e)
           = map (\<lambda>x. Math_pow (js_div (round64 (x - Min (set v)))
                                  (round64 (Max (set v) - Min (set v)))) e) v
       \<and> scaleAssociations_v3 (map Fin v) None
           = map (\<lambda>x. Math_min [Fin 1, Math_max [Fin 0,
                          js_div (js_mul (round64 (x - Min (set v))) (Fin 2))
                            (round64 (Max (set v) - Min (set v)))]]) v
       \<and> scaleAssociations_v3 (map Fin v) (Some s)
           = map (\<lambda>x. Math_min [Fin 1, Math_max [Fin 0,
                          js_div (js_mul (round64 (x - Min (set v))) s)
                            (round64 (Max (set v) - Min (set v)))]]) v"
    using scaleAssociations_v2_Fin[OF f(1), of None] scaleAssociations_v2_Fin[OF f(1), of "Some e"]
      scaleAssociations_v3_Fin[OF f(1), of None] scaleAssociations_v3_Fin[OF f(1), of "Some s"]
    by (simp add: scaleAssociations_v1_v2 del: Math_pow.simps)
  show ?thesis using s1 s2 s3 c u by blast
qed

theorem scaleAssociations_formula_witness:
  "association_vector [0, 1, 3]
   \<and> spec_scale (map Fin [0, 1, 3]) (Fin 3) = [Fin 0, Fin (5337599558365031 / 144115188075855872), Fin 1]
   \<and> scaleAssociations_v1 (map Fin [0, 1, 3]) = [Fin 0, Fin (5337599558365031 / 144115188075855872), Fin 1]
   \<and> scaleAssociations_v2 (map Fin [0, 1, 3]) (Some (Fin 2)) = [Fin 0, Fin (2001599834386887 / 18014398509481984), Fin 1]
   \<and> scaleAssociations_v3 (map Fin [0, 1, 3]) None = [Fin 0, Fin (6004799503160661 / 9007199254740992), Fin 1]
   \<and> scaleAssociations_v3 (map Fin [0, 1, 3]) (Some (Fin 1)) = [Fin 0, Fin (6004799503160661 / 18014398509481984), Fin 1]"
proof -
  have r0: "round64 (1 / 3) = Fin (6004799503160661 / 18014398509481984)"
    by (simp add: round64_eval[where e = "- 54"] round_half_even_def double_limit_def)
  have r1: "round64 (2 / 3) = Fin (6004799503160661 / 9007199254740992)"
    by (simp add: round64_eval[where e = "- 53"] round_half_even_def double_limit_def)
  have r2: "round64 (1) = Fin 1"
    by (simp add: round64_eval[where e = "- 52"] round_half_even_def double_limit_def)
  have r3: "round64 (2) = Fin 2"
    by (simp add: round64_eval[where e = "- 51"] round_half_even_def double_limit_def)
  have r4: "round64 (3) = Fin 3"
    by (simp add: round64_eval[where e = "- 51"] round_half_even_def double_limit_def)
  have r5: "round64 (6) = Fin 6"
    by (simp add: round64_eval[where e = "- 50"] round_half_even_def double_limit_def)
  have rp0: "round64 ((6004799503160661 / 18014398509481984) ^ 2) = Fin (2001599834386887 / 18014398509481984)"
    by (simp add: round64_eval[where e = "- 56"] round_half_even_def double_limit_def power_divide)
  have rp1: "round64 ((6004799503160661 / 18014398509481984) ^ 3) = Fin (5337599558365031 / 144115188075855872)"
    by (simp add: round64_eval[where e = "- 57"] round_half_even_def double_limit_def power_divide)
  have m: "Min (set [0, 1, 3 :: real]) = 0" "Max (set [0, 1, 3 :: real]) = 3" by simp_all
  show ?thesis
    using association_vector_013
      scaleAssociations_formula[OF association_vector_013, of "Fin 2" "Fin 1"]
    by (auto simp: m clamp_Fin r0 r1 r2 r3 r4 r5 rp0 rp1)
qed

subsection \<open>The argument is not changed\<close>

text \<open>
  C10. A call of \<open>scaleAssociations\<close> leaves the array it is given, and every
  other array of the store, as it was; the result is a newly allocated array,
  whose elements are those the list model computes.
\<close>

theorem scaleAssociations_keeps_argument:
  assumes "a < length h"
  shows "unchanged_by h a (scaleAssociations_v1_h h a)
           (scaleAssociations_v1 (h ! a))
       \<and> unchanged_by h a (scaleAssociations_v2_h h a expArg)
           (scaleAssociations_v2 (h ! a) expArg)
       \<and> unchanged_by h a (scaleAssociations_v3_h h a scaleByArg)
           (scaleAssociations_v3 (h ! a) scaleByArg)"
  using assms
  by (simp add: unchanged_by_def scaleAssociations_v1_h_eq scaleAssociations_v2_h_eq
      scaleAssociations_v3_h_eq nth_append)

theorem scaleAssociations_keeps_argument_witness:
  "(0 :: nat) < length [[Fin 0, Fin 1, Fin 2]]
   \<and> scaleAssociations_v3_h [[Fin 0, Fin 1, Fin 2]] 0 None
       = ([[Fin 0, Fin 1, Fin 2], [Fin 0, Fin 1, Fin 2], [Fin 0, Fin 1, Fin 1]], 2)
   \<and> unchanged_by [[Fin 0, Fin 1, Fin 2]] 0 (scaleAssociations_v1_h [[Fin 0, Fin 1, Fin 2]] 0)
        (scaleAssociations_v1 ([[Fin 0, Fin 1, Fin 2]] ! 0))
   \<and> unchanged_by [[Fin 0, Fin 1, Fin 2]] 0 (scaleAssociations_v2_h [[Fin 0, Fin 1, Fin 2]] 0 None)
        (scaleAssociations_v2 ([[Fin 0, Fin 1, Fin 2]] ! 0) None)
   \<and> unchanged_by [[Fin 0, Fin 1, Fin 2]] 0 (scaleAssociations_v3_h [[Fin 0, Fin 1, Fin 2]] 0 None)
        (scaleAssociations_v3 ([[Fin 0, Fin 1, Fin 2]] ! 0) None)"
proof -
  have r0: "round64 (1) = Fin 1"
    by (simp add: round64_eval[where e = "- 52"] round_half_even_def double_limit_def)
  have r1: "round64 (2) = Fin 2"
    by (simp add: round64_eval[where e = "- 51"] round_half_even_def double_limit_def)
  have r2: "round64 (4) = Fin 4"
    by (simp add: round64_eval[where e = "- 50"] round_half_even_def double_limit_def)
  have h: "(0 :: nat) < length [[Fin 0, Fin 1, Fin 2]]" by simp
  have e: "scaleAssociations_v3_h [[Fin 0, Fin 1, Fin 2]] 0 None
       = ([[Fin 0, Fin 1, Fin 2], [Fin 0, Fin 1, Fin 2], [Fin 0, Fin 1, Fin 1]], 2)"
    by (simp add: scaleAssociations_v3_h_def array_map_def Math_min_def Math_max_def min2_def max2_def
        Let_def numeral_2_eq_2 r0 r1 r2)
  show ?thesis
    using h e scaleAssociations_keeps_argument[OF h, of None None] by simp
qed

section \<open>Properties of the page\<close>

subsection \<open>Plain objects and the query map\<close>

lemma map_fst_obj_set:
  "map fst (obj_set q k v) =
     (if k = js ''__proto__'' \<or> k \<in> set (map fst q) then map fst q else map fst q @ [k])"
proof -
  have "map (fst \<circ> (\<lambda>(ka, w). if ka = k then (ka, v) else (ka, w))) q = map fst q"
    by (induction q) auto
  then show ?thesis by (simp add: obj_set_def)
qed

lemma obj_set_keys:
  "set (map fst (obj_set q k v)) =
     (if k = js ''__proto__'' then set (map fst q) else insert k (set (map fst q)))"
  unfolding map_fst_obj_set by auto

lemma obj_set_distinct:
  "distinct (map fst q) \<Longrightarrow> distinct (map fst (obj_set q k v))"
  unfolding map_fst_obj_set by auto

lemma obj_set_all_False:
  "list_all (\<lambda>p. \<not> snd p) q \<Longrightarrow> list_all (\<lambda>p. \<not> snd p) (obj_set q k False)"
  by (auto simp: obj_set_def list_all_iff split: prod.splits)

lemma fold_obj_set:
  "set (map fst (fold (\<lambda>header queryMap. obj_set queryMap (trim header) False) hs q))
     = set (map fst q) \<union> (set (map trim hs) - {js ''__proto__''})
   \<and> (distinct (map fst q) \<longrightarrow>
        distinct (map fst (fold (\<lambda>header queryMap. obj_set queryMap (trim header) False) hs q)))
   \<and> (list_all (\<lambda>p. \<not> snd p) q \<longrightarrow>
        list_all (\<lambda>p. \<not> snd p) (fold (\<lambda>header queryMap. obj_set queryMap (trim header) False) hs q))"
proof (induction hs arbitrary: q)
  case Nil
  show ?case by simp
next
  case (Cons h hs)
  show ?case
    using Cons.IH[of "obj_set q (trim h) False"]
    by (auto simp: obj_set_keys obj_set_distinct obj_set_all_False simp del: set_map)
qed

lemma makeQueryMap_keys:
  "set (map fst (makeQueryMap loaded)) = set (map trim (meta_fields loaded)) - {js ''__proto__''}"
  using fold_obj_set[of "meta_fields loaded" "[]"] by (simp add: makeQueryMap_def)

lemma makeQueryMap_distinct: "distinct (map fst (makeQueryMap loaded))"
  using fold_obj_set[of "meta_fields loaded" "[]"] by (simp add: makeQueryMap_def)

lemma makeQueryMap_all_False: "list_all (\<lambda>p. \<not> snd p) (makeQueryMap loaded)"
  using fold_obj_set[of "meta_fields loaded" "[]"] by (simp add: makeQueryMap_def)

lemma length_own_properties: "length (own_properties q) = length q"
  by (simp add: own_properties_def sum_length_filter_compl)

lemma set_own_properties: "set (own_properties q) = set q"
  by (auto simp: own_properties_def)

lemma length_Object_values: "length (Object_values q) = length q"
  by (simp add: Object_values_def length_own_properties)

lemma Object_values_all_False:
  "list_all (\<lambda>p. \<not> snd p) q \<Longrightarrow> list_all Not (Object_values q)"
  by (simp add: Object_values_def list_all_iff set_own_properties)

lemma length_makeQueryMap:
  "length (makeQueryMap loaded) = card (set (map trim (meta_fields loaded)) - {js ''__proto__''})"
proof -
  have "length (makeQueryMap loaded) = length (map fst (makeQueryMap loaded))" by simp
  also have "\<dots> = card (set (map fst (makeQueryMap loaded)))"
    using makeQueryMap_distinct by (simp only: distinct_card)
  finally show ?thesis by (simp only: makeQueryMap_keys)
qed

subsection \<open>The knob\<close>

lemma range_sanitize_bounds:
  assumes "attr_min inp \<le> attr_max inp"
  shows "attr_min inp \<le> range_sanitize inp raw \<and> range_sanitize inp raw \<le> attr_max inp"
proof -
  define lo where "lo = attr_min inp"
  define hi where "hi = attr_max inp"
  define st where "st = (if 0 < attr_step inp then attr_step inp else 1)"
  define v0 where "v0 = (case raw of None \<Rightarrow> range_default inp | Some x \<Rightarrow> x)"
  define v where "v = (if v0 < lo then lo else if lo \<le> hi \<and> hi < v0 then hi else v0)"
  define k where "k = \<lfloor>(v - lo) / st + 1 / 2\<rfloor>"
  define k' where "k' = (if lo \<le> hi \<and> hi < lo + of_int k * st then k - 1 else k)"
  have res: "range_sanitize inp raw = lo + of_int k' * st"
    by (simp add: range_sanitize_def Let_def lo_def hi_def st_def v0_def v_def k_def k'_def)
  have lohi: "lo \<le> hi" using assms by (simp add: lo_def hi_def)
  have st: "0 < st" by (simp add: st_def)
  have v: "lo \<le> v" "v \<le> hi" using lohi by (auto simp: v_def)
  have "0 \<le> (v - lo) / st" using v(1) st by simp
  then have k0: "0 \<le> k" by (simp add: k_def)
  have upper: "lo + of_int k' * st \<le> hi"
  proof (cases "hi < lo + of_int k * st")
    case True
    then have k': "k' = k - 1" using lohi by (simp add: k'_def)
    have "of_int k \<le> (v - lo) / st + 1 / 2" by (simp add: k_def)
    then have "of_int k - 1 \<le> (v - lo) / st" by simp
    then have "(of_int k - 1) * st \<le> v - lo" using st by (simp add: pos_le_divide_eq)
    then show ?thesis using v(2) by (simp add: k')
  next
    case False
    then show ?thesis by (simp add: k'_def)
  qed
  have lower: "lo \<le> lo + of_int k' * st"
  proof (cases "hi < lo + of_int k * st")
    case True
    then have k': "k' = k - 1" using lohi by (simp add: k'_def)
    have "0 < of_int k * st" using True lohi by simp
    then have "0 < k" using st by (simp add: zero_less_mult_iff)
    then have "0 \<le> k'" by (simp add: k')
    then show ?thesis using st by simp
  next
    case False
    then have "k' = k" by (simp add: k'_def)
    then show ?thesis using k0 st by simp
  qed
  show ?thesis using lower upper by (simp add: res lo_def hi_def)
qed

lemma normBy_sanitized:
  "0 < range_sanitize normBy_input raw \<and> range_sanitize normBy_input raw \<le> 1"
proof -
  have "attr_min normBy_input \<le> attr_max normBy_input" by (simp add: normBy_input_def)
  from range_sanitize_bounds[OF this, of raw] show ?thesis by (simp add: normBy_input_def)
qed

subsection \<open>Steps of the page\<close>

lemma step_knob_value:
  assumes "0 < knob_value p \<and> knob_value p \<le> 1"
  shows "(0 < knob_value (fst (step scale p e)) \<and> knob_value (fst (step scale p e)) \<le> 1)
       \<and> list_all (\<lambda>r. 0 < normBy r \<and> normBy r \<le> 1) (snd (step scale p e))"
  using assms normBy_sanitized
  by (cases e) (simp_all add: Let_def compileForm_def on_response_def header_click_def)

lemma run_knob_value:
  assumes "0 < knob_value p \<and> knob_value p \<le> 1"
  shows "list_all (\<lambda>r. 0 < normBy r \<and> normBy r \<le> 1) (snd (run scale p evs))"
  using assms
proof (induction evs arbitrary: p)
  case Nil
  show ?case by simp
next
  case (Cons e es)
  obtain p1 rs1 where s: "step scale p e = (p1, rs1)" by (cases "step scale p e")
  obtain p2 rs2 where r: "run scale p1 es = (p2, rs2)" by (cases "run scale p1 es")
  have a: "(0 < knob_value p1 \<and> knob_value p1 \<le> 1)"
    and b: "list_all (\<lambda>r. 0 < normBy r \<and> normBy r \<le> 1) rs1"
    using step_knob_value[OF Cons.prems, where scale = scale and e = e] by (simp_all add: s)
  have "list_all (\<lambda>r. 0 < normBy r \<and> normBy r \<le> 1) rs2"
    using Cons.IH[OF a] by (simp add: r)
  then show ?case using b by (simp add: s r)
qed

lemma init_knob_value: "0 < knob_value (init loaded) \<and> knob_value (init loaded) \<le> 1"
  using normBy_sanitized by (simp add: init_def)

lemma step_no_click:
  assumes "\<not> is_click e"
  shows "queryMap (fst (step scale p e)) = queryMap p
       \<and> list_all (\<lambda>r. query r = Object_values (queryMap p)) (snd (step scale p e))"
  using assms
  by (cases e) (simp_all add: Let_def compileForm_def on_response_def)

lemma run_no_click:
  assumes "list_all (\<lambda>e. \<not> is_click e) evs"
  shows "list_all (\<lambda>r. query r = Object_values (queryMap p)) (snd (run scale p evs))"
  using assms
proof (induction evs arbitrary: p)
  case Nil
  show ?case by simp
next
  case (Cons e es)
  obtain p1 rs1 where s: "step scale p e = (p1, rs1)" by (cases "step scale p e")
  obtain p2 rs2 where r: "run scale p1 es = (p2, rs2)" by (cases "run scale p1 es")
  have e: "\<not> is_click e" and es: "list_all (\<lambda>e. \<not> is_click e) es"
    using Cons.prems by simp_all
  have a: "queryMap p1 = queryMap p"
    and b: "list_all (\<lambda>r. query r = Object_values (queryMap p)) rs1"
    using step_no_click[OF e, where scale = scale and p = p] by (simp_all add: s)
  have "list_all (\<lambda>r. query r = Object_values (queryMap p)) rs2"
    using Cons.IH[OF es, where p = p1] by (simp add: r a)
  then show ?case using b by (simp add: s r)
qed

lemma queryMap_init: "queryMap (init loaded) = makeQueryMap loaded"
  by (simp add: init_def)

lemma fst_run_Cons: "fst (run scale p (e # es)) = fst (run scale (fst (step scale p e)) es)"
  by (simp add: split_def Let_def)

lemma step_docAssoc:
  "docAssoc (fst (step scale p e)) = (case e of Response a \<Rightarrow> scale a | _ \<Rightarrow> docAssoc p)"
  by (cases e) (simp_all add: Let_def on_response_def header_click_def)

lemma run_docAssoc:
  "docAssoc (fst (run scale p evs)) =
     (case responses evs of [] \<Rightarrow> docAssoc p | a # as \<Rightarrow> scale (last (a # as)))"
proof (induction evs arbitrary: p)
  case Nil
  show ?case by simp
next
  case (Cons e es)
  have "docAssoc (fst (run scale p (e # es))) =
      (case responses es of [] \<Rightarrow> docAssoc (fst (step scale p e))
       | a # as \<Rightarrow> scale (last (a # as)))"
    unfolding fst_run_Cons by (rule Cons.IH)
  then show ?case
    by (cases e) (simp_all add: step_docAssoc split: list.splits del: step.simps run.simps)
qed

lemma data_cells_alpha:
  "set (map snd (data_cells (displayCSV p))) \<subseteq> insert None (Some ` set (docAssoc p))"
  by (auto simp: displayCSV_def Let_def split: if_splits)

lemma step_keys:
  assumes "set (map fst (queryMap p)) = set (map trim (meta_fields (csvData p))) - {js ''__proto__''}"
  shows "map fst (queryMap (fst (step scale p e))) = map fst (queryMap p)
       \<and> csvData (fst (step scale p e)) = csvData p
       \<and> list_all (\<lambda>r. length (query r) = length (queryMap p)) (snd (step scale p e))"
proof (cases e)
  case (HeaderClick i)
  show ?thesis
  proof (cases "i < length (meta_fields (csvData p))")
    case True
    then have "trim (meta_fields (csvData p) ! i) \<in> set (map trim (meta_fields (csvData p)))"
      by simp
    then have k: "trim (meta_fields (csvData p) ! i) = js ''__proto__''
        \<or> trim (meta_fields (csvData p) ! i) \<in> set (map fst (queryMap p))"
      unfolding assms by blast
    have m: "map fst (queryMap (header_click p i)) = map fst (queryMap p)"
      using k by (auto simp: header_click_def Let_def map_fst_obj_set)
    have "length (map fst (queryMap (header_click p i))) = length (map fst (queryMap p))"
      by (simp only: m)
    then have l: "length (queryMap (header_click p i)) = length (queryMap p)" by simp
    have c: "csvData (header_click p i) = csvData p" by (simp add: header_click_def Let_def)
    show ?thesis
      using True m l c by (simp add: HeaderClick Let_def compileForm_def length_Object_values)
  next
    case False
    then show ?thesis by (simp add: HeaderClick)
  qed
qed (simp_all add: Let_def compileForm_def on_response_def length_Object_values)

lemma run_keys:
  assumes "set (map fst (queryMap p)) = set (map trim (meta_fields (csvData p))) - {js ''__proto__''}"
  shows "list_all (\<lambda>r. length (query r) = length (queryMap p)) (snd (run scale p evs))"
  using assms
proof (induction evs arbitrary: p)
  case Nil
  show ?case by simp
next
  case (Cons e es)
  obtain p1 rs1 where s: "step scale p e = (p1, rs1)" by (cases "step scale p e")
  obtain p2 rs2 where r: "run scale p1 es = (p2, rs2)" by (cases "run scale p1 es")
  have a: "map fst (queryMap p1) = map fst (queryMap p)" and c: "csvData p1 = csvData p"
    and b: "list_all (\<lambda>r. length (query r) = length (queryMap p)) rs1"
    using step_keys[OF Cons.prems, where scale = scale and e = e] by (simp_all add: s)
  have "length (map fst (queryMap p1)) = length (map fst (queryMap p))" by (simp only: a)
  then have l: "length (queryMap p1) = length (queryMap p)" by simp
  have "set (map fst (queryMap p1)) = set (map trim (meta_fields (csvData p1))) - {js ''__proto__''}"
    using Cons.prems by (simp only: a c)
  from Cons.IH[OF this] have "list_all (\<lambda>r. length (query r) = length (queryMap p)) rs2"
    by (simp add: r l)
  then show ?case using b by (simp add: s r)
qed

lemma card_trimmed:
  fixes hs :: "jsstring list"
  shows "(card (set (map trim hs) - {k}) = length hs) = (distinct (map trim hs) \<and> k \<notin> set (map trim hs))"
proof (cases "k \<in> set (map trim hs)")
  case True
  have "card (set (map trim hs) - {k}) < card (set (map trim hs))"
    using True by (intro card_Diff1_less) simp_all
  also have "\<dots> \<le> length (map trim hs)" by (rule card_length)
  finally show ?thesis using True by simp
next
  case False
  then have "set (map trim hs) - {k} = set (map trim hs)" by blast
  then show ?thesis using False card_distinct[of "map trim hs"] distinct_card[of "map trim hs"]
    by auto
qed

text \<open>The definitions a concrete page is evaluated with.\<close>

lemmas page_eval = init_def makeQueryMap_def obj_set_def js_def trim_def is_white_space_def
  Object_values_def own_properties_def is_array_index_def is_digit_def index_value_def
  compileForm_def header_click_def obj_truthy_def range_sanitize_def range_default_def
  normBy_input_def Let_def

subsection \<open>The normalisation value of a request\<close>

text \<open>
  C5. Every request the page posts, after any sequence of events, carries a
  \<open>normBy\<close> greater than \<open>0\<close> and at most \<open>1\<close>: the knob's \<open>min\<close> is \<open>0.0001\<close>,
  its \<open>max\<close> is \<open>1\<close>, and the element keeps its value between them.
\<close>

theorem requests_normBy_in_range:
  "list_all (\<lambda>r. 0 < normBy r \<and> normBy r \<le> 1) (snd (run scale (init loaded) evs))"
  by (rule run_knob_value[OF init_knob_value])

theorem requests_normBy_in_range_witness:
  "map normBy (snd (run scale_v3 (init \<lparr> meta_fields = [js ''a''], data = [] \<rparr>)
      [KnobInput (Some (3 / 10)), KnobInput (Some 7), KnobInput (Some 0), KnobInput None]))
     = [3001 / 10000, 9901 / 10000, 1 / 10000, 5001 / 10000]
   \<and> list_all (\<lambda>r. 0 < normBy r \<and> normBy r \<le> 1)
        (snd (run scale_v3 (init \<lparr> meta_fields = [js ''a''], data = [] \<rparr>)
          [KnobInput (Some (3 / 10)), KnobInput (Some 7), KnobInput (Some 0), KnobInput None]))"
  using requests_normBy_in_range[of scale_v3 "\<lparr> meta_fields = [js ''a''], data = [] \<rparr>"
      "[KnobInput (Some (3 / 10)), KnobInput (Some 7), KnobInput (Some 0), KnobInput None]"]
  by (simp add: page_eval)

subsection \<open>Responses pass through the scaler\<close>

text \<open>
  C6. On a successful response \<open>docAssoc\<close> becomes the scaled \<open>associations\<close>
  array, the grid is drawn from the page so updated, and every opacity in it
  is an entry of the scaled array (or \<open>undefined\<close> for a row past its end).
  After any sequence of events \<open>docAssoc\<close> is the scaled array of the last
  successful response, or the initial zeros when there was none: a raw array
  is never stored.
\<close>

theorem response_is_scaled:
  "docAssoc (fst (on_response scale p associations)) = scale associations
   \<and> snd (on_response scale p associations) = displayCSV (fst (on_response scale p associations))
   \<and> set (map snd (data_cells (snd (on_response scale p associations))))
        \<subseteq> insert None (Some ` set (scale associations))
   \<and> docAssoc (fst (run scale (init loaded) evs)) =
        (case responses evs of
           [] \<Rightarrow> replicate (length (data loaded)) (Fin 0)
         | a # as \<Rightarrow> scale (last (a # as)))"
proof -
  have "set (map snd (data_cells (displayCSV (p\<lparr>docAssoc := scale associations\<rparr>))))
        \<subseteq> insert None (Some ` set (scale associations))"
    using data_cells_alpha[of "p\<lparr>docAssoc := scale associations\<rparr>"] by simp
  moreover have "docAssoc (init loaded) = replicate (length (data loaded)) (Fin 0)"
    by (simp add: init_def)
  ultimately show ?thesis
    using run_docAssoc[of scale "init loaded" evs]
    by (simp add: on_response_def Let_def split: list.splits)
qed

theorem response_is_scaled_witness:
  "docAssoc (fst (run scale_v3
      (init \<lparr> meta_fields = [js ''a''], data = [[js ''1''], [js ''0''], [js ''2'']] \<rparr>)
      [HeaderClick 0, Response [Fin 0, Fin 1, Fin 2], ResponseError]))
     = [Fin 0, Fin 1, Fin 1]
   \<and> map snd (data_cells (snd (on_response scale_v3
        (init \<lparr> meta_fields = [js ''a''], data = [[js ''1''], [js ''0''], [js ''2'']] \<rparr>)
        [Fin 0, Fin 1, Fin 2])))
     = [Some (Fin 0), Some (Fin 1), Some (Fin 1)]"
proof -
  have s: "scale_v3 [Fin 0, Fin 1, Fin 2] = [Fin 0, Fin 1, Fin 1]"
    by (rule scale_v3_012)
  have g: "map snd (data_cells (displayCSV
        ((init \<lparr> meta_fields = [js ''a''], data = [[js ''1''], [js ''0''], [js ''2'']] \<rparr>)
          \<lparr> docAssoc := [Fin 0, Fin 1, Fin 1] \<rparr>)))
     = [Some (Fin 0), Some (Fin 1), Some (Fin 1)]"
    by (simp add: displayCSV_def init_def Let_def upt_rec)
  show ?thesis
    using s g response_is_scaled[of scale_v3
        "init \<lparr> meta_fields = [js ''a''], data = [[js ''1''], [js ''0''], [js ''2'']] \<rparr>"
        "[Fin 0, Fin 1, Fin 2]"
        "\<lparr> meta_fields = [js ''a''], data = [[js ''1''], [js ''0''], [js ''2'']] \<rparr>"
        "[HeaderClick 0, Response [Fin 0, Fin 1, Fin 2], ResponseError]"]
    by (simp add: on_response_def Let_def)
qed

subsection \<open>The length of the query array\<close>

text \<open>
  Apart from a header that trims to \<open>__proto__\<close>, the query array of every
  request has one entry per distinct trimmed header name.
\<close>

lemma query_array_length:
  "length (query (compileForm (init loaded)))
     = card (set (map trim (meta_fields loaded)) - {js ''__proto__''})
   \<and> (length (query (compileForm (init loaded))) = length (meta_fields loaded))
     = (distinct (map trim (meta_fields loaded)) \<and> js ''__proto__'' \<notin> set (map trim (meta_fields loaded)))
   \<and> list_all (\<lambda>r. length (query r) = card (set (map trim (meta_fields loaded)) - {js ''__proto__''}))
        (snd (run scale (init loaded) evs))"
proof -
  have c: "csvData (init loaded) = loaded" by (simp add: init_def)
  have l: "length (query (compileForm (init loaded)))
     = card (set (map trim (meta_fields loaded)) - {js ''__proto__''})"
    by (simp add: compileForm_def queryMap_init length_Object_values length_makeQueryMap)
  have "set (map fst (queryMap (init loaded)))
        = set (map trim (meta_fields (csvData (init loaded)))) - {js ''__proto__''}"
    by (simp only: queryMap_init c makeQueryMap_keys)
  from run_keys[OF this, where scale = scale and evs = evs]
  have r: "list_all (\<lambda>r. length (query r) = card (set (map trim (meta_fields loaded)) - {js ''__proto__''}))
        (snd (run scale (init loaded) evs))"
    by (simp add: queryMap_init length_makeQueryMap)
  show ?thesis using r card_trimmed[where k = "js ''__proto__''" and hs = "meta_fields loaded"] by (simp only: l simp_thms)
qed

text \<open>
  C8. The claim: the query array has as many entries as there are distinct
  trimmed header names. \<open>makeQueryMap\<close> assigns \<open>false\<close> under every trimmed
  header, but for the header \<open>__proto__\<close> the assignment reaches the inherited
  setter and creates no property: the map for the headers \<open>__proto__\<close>, \<open>a\<close>
  has the single key \<open>a\<close>, the query array has one entry for two distinct
  names, and after a click on \<open>a\<close> the grid highlights the cell of
  \<open>__proto__\<close>, since the cells read the array by position.
\<close>

theorem makeQueryMap_proto_dropped:
  "makeQueryMap \<lparr> meta_fields = [js ''__proto__''], data = [] \<rparr> = []
   \<and> length (query (compileForm (init \<lparr> meta_fields = [js ''__proto__''], data = [] \<rparr>))) = 0
   \<and> card (set (map trim [js ''__proto__''])) = 1
   \<and> makeQueryMap \<lparr> meta_fields = [js ''__proto__'', js ''a''], data = [] \<rparr> = [(js ''a'', False)]
   \<and> map query (snd (step scale_v3
          (init \<lparr> meta_fields = [js ''__proto__'', js ''a''], data = [] \<rparr>) FormSubmit)) = [[False]]
   \<and> card (set (map trim [js ''__proto__'', js ''a''])) = 2
   \<and> header_cells (displayCSV (fst (step scale_v3
          (init \<lparr> meta_fields = [js ''__proto__'', js ''a''], data = [] \<rparr>) (HeaderClick 1))))
       = [(js ''__proto__'', True), (js ''a'', False)]"
  by (simp add: page_eval displayCSV_def upt_rec)

subsection \<open>The first request\<close>

text \<open>
  C9, as stated: the first request built from a freshly loaded CSV carries
  the all-false mask. The page posts nothing by itself; when the first event
  is a click on a header cell, the handler flips that entry before it calls
  \<open>compileForm\<close>, and the first request has one \<open>true\<close>.
\<close>

theorem first_request_counterexample:
  "map query (snd (run scale_v3 (init \<lparr> meta_fields = [js ''a'', js ''b''], data = [] \<rparr>)
      [HeaderClick 0])) = [[True, False]]"
  by (simp add: page_eval)

text \<open>
  C9, amended: every value of the map \<open>makeQueryMap\<close> returns is \<open>false\<close>, and
  every request posted before the first click on a header cell (by moving
  the knob or submitting the form) carries the all-false mask.
\<close>

theorem query_all_false_before_click:
  "list_all (\<lambda>p. \<not> snd p) (makeQueryMap loaded)
   \<and> list_all Not (query (compileForm (init loaded)))
   \<and> (list_all (\<lambda>e. \<not> is_click e) evs \<longrightarrow>
        list_all (\<lambda>r. list_all Not (query r)) (snd (run scale (init loaded) evs)))"
proof -
  have f: "list_all Not (Object_values (makeQueryMap loaded))"
    by (rule Object_values_all_False[OF makeQueryMap_all_False])
  have "list_all (\<lambda>r. list_all Not (query r)) (snd (run scale (init loaded) evs))"
    if "list_all (\<lambda>e. \<not> is_click e) evs"
    using run_no_click[OF that, where scale = scale and p = "init loaded"] f
    by (auto simp: list_all_iff queryMap_init)
  then show ?thesis using f makeQueryMap_all_False by (simp add: compileForm_def queryMap_init)
qed

theorem query_all_false_before_click_witness:
  "list_all (\<lambda>e. \<not> is_click e) [KnobInput (Some (3 / 10)), FormSubmit]
   \<and> map query (snd (run scale_v3 (init \<lparr> meta_fields = [js ''a'', js ''b''], data = [] \<rparr>)
        [KnobInput (Some (3 / 10)), FormSubmit])) = [[False, False], [False, False]]
   \<and> list_all (\<lambda>r. list_all Not (query r))
        (snd (run scale_v3 (init \<lparr> meta_fields = [js ''a'', js ''b''], data = [] \<rparr>)
          [KnobInput (Some (3 / 10)), FormSubmit]))"
proof -
  have h: "list_all (\<lambda>e. \<not> is_click e) [KnobInput (Some (3 / 10)), FormSubmit]" by simp
  have e: "map query (snd (run scale_v3 (init \<lparr> meta_fields = [js ''a'', js ''b''], data = [] \<rparr>)
        [KnobInput (Some (3 / 10)), FormSubmit])) = [[False, False], [False, False]]"
    by (simp add: page_eval)
  show ?thesis
    using h e query_all_false_before_click[of "\<lparr> meta_fields = [js ''a'', js ''b''], data = [] \<rparr>"
        "[KnobInput (Some (3 / 10)), FormSubmit]" scale_v3]
    by blast
qed

section \<open>Properties of the engine\<close>



lemma rescale_factor_cong:
  assumes "i < length A"
  shows "rescale_factor A s i = (if sum_list (A ! i) = 0 then 0 else sum_list (A ! i) powr (- s))"
  by (simp add: rescale_factor_def Let_def)






end
